theory Spec2Isabelle
  imports Main "HOL-Library.Product_Lexorder"
begin

section \<open>Arrays, indices and errors\<close>

text \<open>
  The model of \<^verbatim>\<open>cnap_lib/analysis.py\<close>. An adjacency matrix is a two-dimensional
  integer array, written as the list of its rows (all of one length). Node indices read
  out of an array (\<^verbatim>\<open>np.where\<close>, \<^verbatim>\<open>np.argwhere\<close>) are natural numbers; indices supplied by a
  caller are Python integers and may be negative. The exceptions the code can raise are
  values of \<open>error\<close>, and a fallible function returns \<open>error + 'a\<close>.
\<close>

datatype error = IndexError | TypeError | ValueError

type_synonym matrix = "int list list"

text \<open>
  Node positions are either a Python list (the default argument \<^verbatim>\<open>node_positions=[]\<close> is
  one) or a numpy array with one row per node. The rows themselves are never inspected,
  so their type is a parameter.
\<close>

datatype 'p node_positions = PyList "'p list" | NdArray "'p list"

text \<open>
  \<^verbatim>\<open>np.fill_diagonal(a, v)\<close> on a two-dimensional array writes \<open>v\<close> at every \<open>a[i][i]\<close> that
  exists (for a matrix that is not square: for \<open>i\<close> below both dimensions).
\<close>

definition fill_diagonal :: "matrix \<Rightarrow> int \<Rightarrow> matrix" where
  "fill_diagonal a v = map (\<lambda>(i, row). row[i := v]) (enumerate 0 a)"

text \<open>\<^verbatim>\<open>np.where(row)[0]\<close>: the indices of the true entries of a boolean row, ascending.\<close>

definition np_where :: "bool list \<Rightarrow> nat list" where
  "np_where row = filter (\<lambda>j. row ! j) [0..<length row]"

text \<open>\<^verbatim>\<open>adj_mat == 1\<close>: the elementwise comparison.\<close>

definition eq_one :: "matrix \<Rightarrow> bool list list" where
  "eq_one a = map (map (\<lambda>x. x = 1)) a"

text \<open>\<^verbatim>\<open>np.argwhere(b)\<close>: the index pairs of the true entries, in row-major order.\<close>

definition np_argwhere :: "bool list list \<Rightarrow> (nat \<times> nat) list" where
  "np_argwhere b = concat (map (\<lambda>(i, row). map (\<lambda>j. (i, j)) (np_where row)) (enumerate 0 b))"

text \<open>\<^verbatim>\<open>np.sort(pairs, axis=1)\<close> sorts each row, here each pair.\<close>

definition sort_pair :: "nat \<times> nat \<Rightarrow> nat \<times> nat" where
  "sort_pair p = (min (fst p) (snd p), max (fst p) (snd p))"

text \<open>
  \<^verbatim>\<open>np.unique(rows, axis=0)\<close> sorts the rows (lexicographically, the order of
  \<^verbatim>\<open>HOL-Library.Product_Lexorder\<close> on tuples) and keeps the first row of every run of
  equal ones.
\<close>

definition np_unique :: "('a::linorder) list \<Rightarrow> 'a list" where
  "np_unique xs = remdups_adj (sort xs)"

text \<open>
  With \<^verbatim>\<open>return_counts=True\<close>, \<^verbatim>\<open>np.unique\<close> also returns the length of every run of the
  sorted array.
\<close>

fun count_runs :: "'a list \<Rightarrow> ('a \<times> nat) list" where
  "count_runs [] = []"
| "count_runs (x # xs) =
     (case count_runs xs of
        [] \<Rightarrow> [(x, 1)]
      | (y, c) # rest \<Rightarrow> if x = y then (y, Suc c) # rest else (x, 1) # (y, c) # rest)"

definition np_unique_counts :: "('a::linorder) list \<Rightarrow> ('a \<times> nat) list" where
  "np_unique_counts xs = count_runs (sort xs)"

text \<open>\<^verbatim>\<open>np.intersect1d(a, b)\<close>: the sorted, unique values that are in both arrays.\<close>

definition intersect1d :: "nat list \<Rightarrow> nat list \<Rightarrow> nat list" where
  "intersect1d a b = np_unique (filter (\<lambda>x. x \<in> set b) a)"

text \<open>
  Reading \<open>xs[i]\<close> with an integer \<open>i\<close>, for a Python list and for one axis of a numpy
  array alike: \<open>-k\<close> counts from the end, and an index outside \<open>[-n, n)\<close> raises
  \<^verbatim>\<open>IndexError\<close>.
\<close>

definition py_index :: "'a list \<Rightarrow> int \<Rightarrow> error + 'a" where
  "py_index xs i =
     (if 0 \<le> i \<and> i < int (length xs) then Inr (xs ! nat i)
      else if i < 0 \<and> - int (length xs) \<le> i then Inr (xs ! nat (int (length xs) + i))
      else Inl IndexError)"

text \<open>The position that an index in \<open>[-n, n)\<close> reads.\<close>

definition node_of :: "nat \<Rightarrow> int \<Rightarrow> nat" where
  "node_of n i = (if i < 0 then nat (int n + i) else nat i)"

text \<open>A comprehension or loop over fallible steps stops at the first exception.\<close>

fun map_result :: "('a \<Rightarrow> error + 'b) \<Rightarrow> 'a list \<Rightarrow> error + 'b list" where
  "map_result f [] = Inr []"
| "map_result f (x # xs) =
     (case f x of
        Inl e \<Rightarrow> Inl e
      | Inr y \<Rightarrow> (case map_result f xs of Inl e \<Rightarrow> Inl e | Inr ys \<Rightarrow> Inr (y # ys)))"

text \<open>\<open>a[idx]\<close> for an integer index array \<open>idx\<close> along the first axis.\<close>

definition take_indices :: "'a list \<Rightarrow> int list \<Rightarrow> error + 'a list" where
  "take_indices xs idx = map_result (py_index xs) idx"

text \<open>
  \<^verbatim>\<open>a[np.ix_(idx, idx)]\<close> for an integer index array: the rows \<open>idx\<close>, and of each the columns
  \<open>idx\<close>, as a new array (advanced indexing copies).
\<close>

definition ix_select :: "matrix \<Rightarrow> int list \<Rightarrow> error + matrix" where
  "ix_select a idx =
     (case take_indices a idx of
        Inl e \<Rightarrow> Inl e
      | Inr rows \<Rightarrow> map_result (\<lambda>row. take_indices row idx) rows)"

text \<open>
  The argument \<open>nodes\<close> of \<open>make_subgraph\<close> is a Python list of integers or an integer
  array (\<^verbatim>\<open>np.intersect1d\<close> returns one). \<^verbatim>\<open>np.array(nodes)\<close> keeps an array as it is and
  turns a list of integers into an integer array, but the empty list into an empty array
  of floats, which numpy refuses as an index (\<^verbatim>\<open>np.ix_\<close> retypes an empty sequence only when
  it is not yet an array).
\<close>

datatype nodes_arg = ListArg "int list" | ArrayArg "int list"

datatype index_array = IntIndex "int list" | FloatIndex

fun np_array :: "nodes_arg \<Rightarrow> index_array" where
  "np_array (ListArg []) = FloatIndex"
| "np_array (ListArg (x # xs)) = IntIndex (x # xs)"
| "np_array (ArrayArg xs) = IntIndex xs"

text \<open>
  \<^verbatim>\<open>self.positions[nodes]\<close> with \<open>nodes\<close> an integer array: a numpy array is re-indexed row
  by row; a Python list cannot be subscripted by an array and raises \<^verbatim>\<open>TypeError\<close>.
\<close>

fun index_positions :: "'p node_positions \<Rightarrow> int list \<Rightarrow> error + 'p node_positions" where
  "index_positions (PyList ps) idx = Inl TypeError"
| "index_positions (NdArray ps) idx =
     (case take_indices ps idx of Inl e \<Rightarrow> Inl e | Inr qs \<Rightarrow> Inr (NdArray qs))"

text \<open>
  \<^verbatim>\<open>self.positions is not []\<close> compares the identity of the stored object with the list
  that evaluating the literal \<^verbatim>\<open>[]\<close> has just created. No stored object is that new list,
  so the test holds for every value of \<open>positions\<close>, the default empty list included.
\<close>

definition is_not_new_list :: "'p node_positions \<Rightarrow> bool" where
  "is_not_new_list p = True"

section \<open>The class Graph\<close>

record 'p Graph =
  adj_mat :: matrix
  adj_list :: "nat list list"
  positions :: "'p node_positions"
  root_node :: "int option"

text \<open>\<^verbatim>\<open>make_adj_list\<close> reads \<^verbatim>\<open>self.adj_mat\<close>; \<^verbatim>\<open>__init__\<close> calls it on the matrix just stored.\<close>

definition make_adj_list :: "matrix \<Rightarrow> nat list list" where
  "make_adj_list a = map np_where (eq_one a)"

text \<open>
  \<^verbatim>\<open>Graph.__init__\<close>. It has no check of the matrix's shape and no \<^verbatim>\<open>raise\<close>; on a
  two-dimensional array none of its steps fails.
\<close>

definition Graph_init :: "matrix \<Rightarrow> 'p node_positions \<Rightarrow> bool \<Rightarrow> int option \<Rightarrow> error + 'p Graph" where
  "Graph_init a node_positions fill_diag root =
     (let a' = (if fill_diag then fill_diagonal a 0 else a)
      in Inr \<lparr>adj_mat = a', adj_list = make_adj_list a', positions = node_positions, root_node = root\<rparr>)"

text \<open>
  The first argument of \<^verbatim>\<open>Graph(...)\<close> as an array of any of the ranks 0, 1 and 2 (arrays of
  more dimensions are not modelled), for a call that leaves \<^verbatim>\<open>fill_diag\<close> at its default
  \<^verbatim>\<open>True\<close>. The first step that looks at the array is then \<^verbatim>\<open>np.fill_diagonal\<close>, which
  raises \<^verbatim>\<open>ValueError\<close> (array must be at least 2-d) below rank 2.
\<close>

datatype array_arg = Array0 int | Array1 "int list" | Array2 matrix

fun Graph_new :: "array_arg \<Rightarrow> 'p node_positions \<Rightarrow> int option \<Rightarrow> error + 'p Graph" where
  "Graph_new (Array0 x) node_positions root = Inl ValueError"
| "Graph_new (Array1 v) node_positions root = Inl ValueError"
| "Graph_new (Array2 m) node_positions root = Graph_init m node_positions True root"

definition number_of_nodes :: "'p Graph \<Rightarrow> nat" where
  "number_of_nodes g = length (adj_mat g)"

definition unique_bonds :: "'p Graph \<Rightarrow> (nat \<times> nat) list" where
  "unique_bonds g = np_unique (map sort_pair (np_argwhere (eq_one (adj_mat g))))"

definition number_of_unique_bonds :: "'p Graph \<Rightarrow> nat" where
  "number_of_unique_bonds g = length (unique_bonds g)"

text \<open>
  \<^verbatim>\<open>make_subgraph\<close>. The new matrix is a copy; its diagonal is cleared, and the constructor
  (with its default \<^verbatim>\<open>fill_diag=True\<close>) clears it again.
\<close>

definition make_subgraph :: "'p Graph \<Rightarrow> nodes_arg \<Rightarrow> error + 'p Graph" where
  "make_subgraph g nodes =
     (case np_array nodes of
        FloatIndex \<Rightarrow> Inl IndexError
      | IntIndex idx \<Rightarrow>
          (case ix_select (adj_mat g) idx of
             Inl e \<Rightarrow> Inl e
           | Inr sub_adj_mat \<Rightarrow>
               (let sub = fill_diagonal sub_adj_mat 0
                in if is_not_new_list (positions g)
                   then (case index_positions (positions g) idx of
                           Inl e \<Rightarrow> Inl e
                         | Inr ps \<Rightarrow> Graph_init sub ps True None)
                   else Graph_init sub (PyList []) True None)))"

subsection \<open>The longest chain\<close>

text \<open>
  The body of \<^verbatim>\<open>for w in self.adj_list[v]\<close>: the ring-closure test, then the push of an
  undiscovered neighbour. The stack is a Python list whose top is its last element.
\<close>

fun scan_neighbors :: "int \<Rightarrow> nat \<Rightarrow> int list \<Rightarrow> nat list \<Rightarrow> nat \<times> (int \<times> nat) list \<Rightarrow> nat \<times> (int \<times> nat) list" where
  "scan_neighbors start l disc [] (mx, stack) = (mx, stack)"
| "scan_neighbors start l disc (w # ws) (mx, stack) =
     scan_neighbors start l disc ws
       (if 2 \<le> l \<and> int w = start then max mx (l + 1) else mx,
        if int w \<notin> set disc then stack @ [(int w, l + 1)] else stack)"

text \<open>The \<^verbatim>\<open>while (len(stack) > 0)\<close> loop, on \<open>max_lenght\<close>, \<open>discovered\<close> and \<open>stack\<close>.\<close>

function chain_loop :: "nat list list \<Rightarrow> int \<Rightarrow> nat \<Rightarrow> int list \<Rightarrow> (int \<times> nat) list \<Rightarrow> error + nat" where
  "chain_loop adj start mx disc stack =
     (if stack = [] then Inr mx
      else case last stack of (v, l) \<Rightarrow>
        if v \<in> set disc then chain_loop adj start mx disc (butlast stack)
        else (case py_index adj v of
                Inl e \<Rightarrow> Inl e
              | Inr nbrs \<Rightarrow>
                  (case scan_neighbors start l (disc @ [v]) nbrs (max mx l, butlast stack) of
                     (mx', stack') \<Rightarrow> chain_loop adj start mx' (disc @ [v]) stack')))"
  by pat_completeness auto

text \<open>
  The loop ends: a pop either discovers a node that has a row in the adjacency list, of
  which there are finitely many, or shortens the stack.
\<close>

termination chain_loop
proof (relation "measures [\<lambda>(adj, start, mx, disc, stack). card ({- int (length adj) ..< int (length adj)} - set disc),
                            \<lambda>(adj, start, mx, disc, stack). length stack]", goal_cases)
  case 1
  show ?case by simp
next
  case 2
  then show ?case by simp
next
  case (3 adj start mx disc stack v l nbrs mx' stack')
  let ?U = "{- int (length adj) ..< int (length adj)} - set disc"
  have "- int (length adj) \<le> v \<and> v < int (length adj)"
    using \<open>py_index adj v = Inr nbrs\<close> by (auto simp: py_index_def split: if_splits)
  then have "v \<in> ?U"
    using \<open>v \<notin> set disc\<close> by simp
  moreover have "finite ?U"
    by simp
  moreover have "{- int (length adj) ..< int (length adj)} - set (disc @ [v]) = ?U - {v}"
    by auto
  ultimately have "card ({- int (length adj) ..< int (length adj)} - set (disc @ [v])) < card ?U"
    by (simp only: card_Diff1_less)
  then show ?case by simp
qed

definition longest_chain_from_node :: "'p Graph \<Rightarrow> int \<Rightarrow> error + nat" where
  "longest_chain_from_node g starting_node =
     chain_loop (adj_list g) starting_node 0 [] [(starting_node, 0)]"

text \<open>The property \<^verbatim>\<open>longest_chain\<close>: the loop over \<^verbatim>\<open>enumerate(self.adj_list)\<close>.\<close>

fun longest_chain_loop :: "'p Graph \<Rightarrow> nat list \<Rightarrow> nat \<Rightarrow> error + nat" where
  "longest_chain_loop g [] mx = Inr mx"
| "longest_chain_loop g (i # rest) mx =
     (case longest_chain_from_node g (int i) of
        Inl e \<Rightarrow> Inl e
      | Inr l \<Rightarrow> longest_chain_loop g rest (max l mx))"

definition longest_chain :: "'p Graph \<Rightarrow> error + nat" where
  "longest_chain g = longest_chain_loop g [0..<length (adj_list g)] 0"

section \<open>Signatures, CNAPs and their groups\<close>

type_synonym signature = "nat \<times> nat \<times> nat"

text \<open>
  The ascending lexicographic comparison of two signatures: by \<open>n\<close>, then \<open>b\<close>, then \<open>l\<close>.
\<close>

definition sig_less :: "signature \<Rightarrow> signature \<Rightarrow> bool" where
  "sig_less s t =
     (fst s < fst t \<or> (fst s = fst t \<and> (fst (snd s) < fst (snd t)
        \<or> (fst (snd s) = fst (snd t) \<and> snd (snd s) < snd (snd t)))))"

text \<open>One element of the comprehension in \<^verbatim>\<open>get_cns_subgraphs\<close>, for the bond \<open>(i, j)\<close>.\<close>

definition cns_subgraph :: "'p Graph \<Rightarrow> nat \<times> nat \<Rightarrow> error + 'p Graph" where
  "cns_subgraph g bond =
     (case py_index (adj_list g) (int (fst bond)) of
        Inl e \<Rightarrow> Inl e
      | Inr ni \<Rightarrow>
          (case py_index (adj_list g) (int (snd bond)) of
             Inl e \<Rightarrow> Inl e
           | Inr nj \<Rightarrow> make_subgraph g (ArrayArg (map int (intersect1d ni nj)))))"

definition get_cns_subgraphs :: "'p Graph \<Rightarrow> error + 'p Graph list" where
  "get_cns_subgraphs g = map_result (cns_subgraph g) (unique_bonds g)"

text \<open>The body of the loop of \<^verbatim>\<open>compute_signatures\<close>, for one subgraph.\<close>

definition signature_of :: "'p Graph \<Rightarrow> error + signature" where
  "signature_of subgraph =
     (case longest_chain subgraph of
        Inl e \<Rightarrow> Inl e
      | Inr k \<Rightarrow> Inr (number_of_nodes subgraph, number_of_unique_bonds subgraph, k))"

definition compute_signatures :: "'p Graph \<Rightarrow> error + signature list" where
  "compute_signatures g =
     (case get_cns_subgraphs g of
        Inl e \<Rightarrow> Inl e
      | Inr subgraphs \<Rightarrow> map_result signature_of subgraphs)"

text \<open>
  \<^verbatim>\<open>np.unique(signatures, ...)\<close> first turns the list of tuples into an array of one
  fixed-width type, found from the Python integers in it: an integer below \<open>2^63\<close> is a
  signed 64-bit integer, one from \<open>2^63\<close> to \<open>2^64 - 1\<close> an unsigned one, a larger one a
  Python object; an array of signed and unsigned integers together is an array of 64-bit
  floats, and an array with an object in it is an array of objects (the empty list gives
  an empty array of floats).
\<close>

datatype dtype = Int64 | UInt64 | Float64 | Object

definition components :: "signature list \<Rightarrow> nat list" where
  "components sigs = concat (map (\<lambda>s. [fst s, fst (snd s), snd (snd s)]) sigs)"

definition array_dtype :: "nat list \<Rightarrow> dtype" where
  "array_dtype xs =
     (if xs = [] then Float64
      else if list_ex (\<lambda>x. 2 ^ 64 \<le> int x) xs then Object
      else if list_all (\<lambda>x. int x < 2 ^ 63) xs then Int64
      else if list_all (\<lambda>x. 2 ^ 63 \<le> int x) xs then UInt64
      else Float64)"

text \<open>
  The 64-bit float nearest to a natural number below \<open>2^64\<close>, as the natural number it
  equals: 53 significant bits are kept, and a tie goes to the even neighbour.
\<close>

fun bit_length :: "nat \<Rightarrow> nat" where
  "bit_length n = (if n = 0 then 0 else Suc (bit_length (n div 2)))"

declare bit_length.simps [simp del]

definition float64_of_nat :: "nat \<Rightarrow> nat" where
  "float64_of_nat x =
     (if bit_length x \<le> 53 then x
      else (let u = 2 ^ (bit_length x - 53); q = x div u; r = x mod u
            in if 2 * r < u \<or> (2 * r = u \<and> even q) then q * u else (q + 1) * u))"

definition float64_signature :: "signature \<Rightarrow> signature" where
  "float64_signature s =
     (float64_of_nat (fst s), float64_of_nat (fst (snd s)), float64_of_nat (snd (snd s)))"

text \<open>A signature whose three components are signed 64-bit integers.\<close>

definition int64_signature :: "signature \<Rightarrow> bool" where
  "int64_signature s = (fst s < 2 ^ 63 \<and> fst (snd s) < 2 ^ 63 \<and> snd (snd s) < 2 ^ 63)"

text \<open>
  \<^verbatim>\<open>get_occurrences\<close>. \<^verbatim>\<open>np.unique\<close> with an axis refuses an array of objects with
  \<^verbatim>\<open>TypeError\<close>. In an array of floats the keys are the rounded values, written here as the
  natural numbers they equal.
\<close>

definition get_occurrences :: "signature list \<Rightarrow> error + (signature \<times> nat) list" where
  "get_occurrences signatures =
     (case array_dtype (components signatures) of
        Object \<Rightarrow> Inl TypeError
      | Float64 \<Rightarrow> Inr (np_unique_counts (map float64_signature signatures))
      | Int64 \<Rightarrow> Inr (np_unique_counts signatures)
      | UInt64 \<Rightarrow> Inr (np_unique_counts signatures))"

text \<open>
  The loop \<^verbatim>\<open>for sig, bond in zip(sigs, bonds)\<close> of \<^verbatim>\<open>get_CNAPs\<close>, on \<open>sigs_per_node\<close>; a node
  index past the end of that list raises \<^verbatim>\<open>IndexError\<close>.
\<close>

fun append_sigs :: "(signature \<times> nat \<times> nat) list \<Rightarrow> signature list list \<Rightarrow> error + signature list list" where
  "append_sigs [] spn = Inr spn"
| "append_sigs ((sg, n1, n2) # rest) spn =
     (if n1 < length spn
      then (let spn1 = spn[n1 := spn ! n1 @ [sg]]
            in if n2 < length spn1
               then append_sigs rest (spn1[n2 := spn1 ! n2 @ [sg]])
               else Inl IndexError)
      else Inl IndexError)"

definition get_CNAPs :: "'p Graph \<Rightarrow> error + (signature \<times> nat) list list" where
  "get_CNAPs g =
     (case compute_signatures g of
        Inl e \<Rightarrow> Inl e
      | Inr sigs \<Rightarrow>
          (case append_sigs (zip sigs (unique_bonds g)) (replicate (number_of_nodes g) []) of
             Inl e \<Rightarrow> Inl e
           | Inr sigs_per_node \<Rightarrow> map_result get_occurrences sigs_per_node))"

text \<open>The loop of \<^verbatim>\<open>unique_CNAPs\<close>, on \<open>out\<close>.\<close>

fun unique_loop :: "'a list \<Rightarrow> 'a list \<Rightarrow> 'a list" where
  "unique_loop [] out = out"
| "unique_loop (i # rest) out = unique_loop rest (if i \<notin> set out then out @ [i] else out)"

definition unique_CNAPs :: "'a list \<Rightarrow> 'a list" where
  "unique_CNAPs CNAPs = unique_loop CNAPs []"

text \<open>\<^verbatim>\<open>group_CNAPs\<close> returns the two-element list \<open>[keys, matching_indices]\<close>, here a pair.\<close>

definition group_CNAPs :: "'a list \<Rightarrow> 'a list \<times> nat list list" where
  "group_CNAPs CNAPs =
     (let keys = unique_CNAPs CNAPs
      in (keys, map (\<lambda>key. map fst (filter (\<lambda>(i, comp). comp = key) (enumerate 0 CNAPs))) keys))"

definition make_neighbors_subgraph :: "'p Graph \<Rightarrow> int \<Rightarrow> error + 'p Graph" where
  "make_neighbors_subgraph g index =
     (case py_index (adj_list g) index of
        Inl e \<Rightarrow> Inl e
      | Inr ns \<Rightarrow> make_subgraph g (ListArg (map int ns @ [index])))"

section \<open>Graphs over a store of buffers\<close>

text \<open>
  A numpy array is an object that views a buffer: \<^verbatim>\<open>self.adj_mat = adj_mat\<close> keeps the
  caller's array itself, \<^verbatim>\<open>np.fill_diagonal\<close> writes into the buffer of the array it is
  given, and a slice such as \<^verbatim>\<open>base[:2, :2]\<close> is a second array on the same buffer. To see
  who shares what, the buffers live in a store, addressed by their position in it. A
  two-dimensional array names its buffer, the cell of its element \<open>(0, 0)\<close>, its shape, and
  the step from one row and from one column to the next (counted in cells).
\<close>

type_synonym buffer = "int list"

type_synonym store = "buffer list"

record array2 =
  arr_base :: nat
  arr_offset :: int
  arr_rows :: nat
  arr_cols :: nat
  arr_stride0 :: int
  arr_stride1 :: int

definition cell :: "array2 \<Rightarrow> nat \<Rightarrow> nat \<Rightarrow> nat" where
  "cell a i j = nat (arr_offset a + int i * arr_stride0 a + int j * arr_stride1 a)"

text \<open>The matrix an array shows.\<close>

definition read_array :: "store \<Rightarrow> array2 \<Rightarrow> matrix" where
  "read_array s a =
     map (\<lambda>i. map (\<lambda>j. s ! arr_base a ! cell a i j) [0..<arr_cols a]) [0..<arr_rows a]"

text \<open>
  An array of the store: its buffer exists, its elements lie in the buffer, and no two of
  them in the same cell.
\<close>

definition valid_array :: "store \<Rightarrow> array2 \<Rightarrow> bool" where
  "valid_array s a =
     (arr_base a < length s
      \<and> (\<forall>i \<in> {0..<arr_rows a}. \<forall>j \<in> {0..<arr_cols a}.
            0 \<le> arr_offset a + int i * arr_stride0 a + int j * arr_stride1 a
            \<and> cell a i j < length (s ! arr_base a))
      \<and> (\<forall>i \<in> {0..<arr_rows a}. \<forall>j \<in> {0..<arr_cols a}.
          \<forall>i' \<in> {0..<arr_rows a}. \<forall>j' \<in> {0..<arr_cols a}.
            cell a i j = cell a i' j' \<longrightarrow> i = i' \<and> j = j'))"

text \<open>\<^verbatim>\<open>np.fill_diagonal(a, v)\<close> in place: the cells of the elements \<open>(i, i)\<close> are overwritten.\<close>

definition diagonal_cells :: "array2 \<Rightarrow> nat list" where
  "diagonal_cells a = map (\<lambda>i. cell a i i) [0..<min (arr_rows a) (arr_cols a)]"

definition fill_diagonal_st :: "store \<Rightarrow> array2 \<Rightarrow> int \<Rightarrow> store" where
  "fill_diagonal_st s a v =
     s[arr_base a := fold (\<lambda>c b. b[c := v]) (diagonal_cells a) (s ! arr_base a)]"

text \<open>
  A Graph object holds its array. The functions over the store return the store they
  leave behind together with the object or the exception.
\<close>

record 'p Graph_obj =
  adj_mat_ref :: array2
  obj_adj_list :: "nat list list"
  obj_positions :: "'p node_positions"
  obj_root_node :: "int option"

definition Graph_init_st :: "store \<Rightarrow> array2 \<Rightarrow> 'p node_positions \<Rightarrow> bool \<Rightarrow> int option \<Rightarrow> store \<times> (error + 'p Graph_obj)" where
  "Graph_init_st s a node_positions fill_diag root =
     (let s' = (if fill_diag then fill_diagonal_st s a 0 else s)
      in (s', Inr \<lparr>adj_mat_ref = a, obj_adj_list = make_adj_list (read_array s' a),
                   obj_positions = node_positions, obj_root_node = root\<rparr>))"

text \<open>
  The result of advanced indexing is a new array with a buffer of its own, holding the
  selected \<open>k\<close> by \<open>k\<close> matrix row after row.
\<close>

definition new_array :: "nat \<Rightarrow> nat \<Rightarrow> array2" where
  "new_array b k =
     \<lparr>arr_base = b, arr_offset = 0, arr_rows = k, arr_cols = k, arr_stride0 = int k, arr_stride1 = 1\<rparr>"

definition make_subgraph_st :: "store \<Rightarrow> 'p Graph_obj \<Rightarrow> nodes_arg \<Rightarrow> store \<times> (error + 'p Graph_obj)" where
  "make_subgraph_st s self nodes =
     (case np_array nodes of
        FloatIndex \<Rightarrow> (s, Inl IndexError)
      | IntIndex idx \<Rightarrow>
          (case ix_select (read_array s (adj_mat_ref self)) idx of
             Inl e \<Rightarrow> (s, Inl e)
           | Inr sub_adj_mat \<Rightarrow>
               (let a = new_array (length s) (length idx);
                    s1 = s @ [concat sub_adj_mat];
                    s2 = fill_diagonal_st s1 a 0
                in if is_not_new_list (obj_positions self)
                   then (case index_positions (obj_positions self) idx of
                           Inl e \<Rightarrow> (s2, Inl e)
                         | Inr ps \<Rightarrow> Graph_init_st s2 a ps True None)
                   else Graph_init_st s2 a (PyList []) True None)))"

text \<open>The Graph value an object stands for: its matrix read from the store.\<close>

definition graph_of :: "store \<Rightarrow> 'p Graph_obj \<Rightarrow> 'p Graph" where
  "graph_of s obj =
     \<lparr>adj_mat = read_array s (adj_mat_ref obj), adj_list = obj_adj_list obj,
      positions = obj_positions obj, root_node = obj_root_node obj\<rparr>"

section \<open>Adjacency matrices of undirected graphs\<close>

text \<open>
  The matrices the specification speaks of: \<open>N\<close> rows of length \<open>N\<close>, equal to their
  transpose, with zeros on the diagonal.
\<close>

definition square :: "matrix \<Rightarrow> bool" where
  "square m = (\<forall>r \<in> set m. length r = length m)"

definition symmetric :: "matrix \<Rightarrow> bool" where
  "symmetric m = (\<forall>i \<in> {0..<length m}. \<forall>j \<in> {0..<length m}. m ! i ! j = m ! j ! i)"

definition zero_diagonal :: "matrix \<Rightarrow> bool" where
  "zero_diagonal m = (\<forall>i \<in> {0..<length m}. m ! i ! i = 0)"

text \<open>The bonds that touch node \<open>n\<close>; their number is the degree of \<open>n\<close>.\<close>

definition incident_bonds :: "'p Graph \<Rightarrow> nat \<Rightarrow> (nat \<times> nat) list" where
  "incident_bonds g n = filter (\<lambda>b. fst b = n \<or> snd b = n) (unique_bonds g)"

section \<open>Example graphs\<close>

definition triangle :: matrix where
  "triangle = [[0, 1, 1], [1, 0, 1], [1, 1, 0]]"

definition K4 :: matrix where
  "K4 = [[0, 1, 1, 1], [1, 0, 1, 1], [1, 1, 0, 1], [1, 1, 1, 0]]"

text \<open>The corners of a regular tetrahedron, as an array of four positions.\<close>

definition K4_positions :: "(int \<times> int \<times> int) node_positions" where
  "K4_positions = NdArray [(0, 0, 0), (1, 1, 0), (1, 0, 1), (0, 1, 1)]"

text \<open>Two bonded nodes, with and without positions, and a matrix that is not square.\<close>

definition dimer :: matrix where
  "dimer = [[0, 1], [1, 0]]"

definition dimer_positions :: "(int \<times> int \<times> int) node_positions" where
  "dimer_positions = NdArray [(0, 0, 0), (1, 1, 0)]"

definition no_positions :: "(int \<times> int \<times> int) node_positions" where
  "no_positions = PyList []"

definition two_by_three :: matrix where
  "two_by_three = [[0, 1, 0], [1, 0, 1]]"

text \<open>
  The view of the upper left two by two corner of a three by three array in buffer \<open>b\<close>
  (the slice \<^verbatim>\<open>base[:2, :2]\<close>).
\<close>

definition corner_view :: "nat \<Rightarrow> array2" where
  "corner_view b =
     \<lparr>arr_base = b, arr_offset = 0, arr_rows = 2, arr_cols = 2, arr_stride0 = 3, arr_stride1 = 1\<rparr>"

section \<open>The longest chain of a triangle\<close>

text \<open>
  C2. On the triangle with the edges 0-1, 1-2 and 0-2, \<open>longest_chain_from_node(0)\<close> returns
  3: node 1 is discovered at depth 2 with the start node among its neighbours, and the
  ring-closure test raises the maximum to depth + 1 = 3, one more than the longest simple
  path from node 0 has edges.
\<close>

theorem triangle_longest_chain_from_node:
  "(case Graph_init triangle no_positions True None of
      Inl e \<Rightarrow> Inl e
    | Inr g \<Rightarrow> longest_chain_from_node g 0) = Inr 3"
  by code_simp

section \<open>Occurrences of signatures\<close>

lemma sorted_distinct_remdups_adj:
  "sorted xs \<Longrightarrow> distinct (remdups_adj xs)"
proof (induction xs)
  case Nil
  then show ?case by simp
next
  case (Cons x xs)
  show ?case
  proof (cases "remdups_adj xs")
    case Nil
    then show ?thesis by (simp add: remdups_adj_Cons)
  next
    case (Cons y ys)
    have d: "distinct (y # ys)" using Cons.IH Cons.prems Cons by simp
    have xs: "xs \<noteq> []" using Cons by auto
    have hd: "y = hd xs" using hd_remdups_adj [of xs] Cons by simp
    have "x \<notin> set xs" if "x \<noteq> y"
    proof
      assume "x \<in> set xs"
      then have "y \<le> x" using Cons.prems hd xs by (cases xs) auto
      moreover have "x \<le> y" using Cons.prems hd xs by (cases xs) auto
      ultimately show False using that by simp
    qed
    then have "x \<noteq> y \<Longrightarrow> x \<notin> set (y # ys)"
      using remdups_adj_set [of xs] Cons by simp
    then show ?thesis using d Cons by (auto simp: remdups_adj_Cons)
  qed
qed

lemma count_runs_fst: "map fst (count_runs xs) = remdups_adj xs"
  by (induction xs) (auto simp: remdups_adj_Cons split: list.splits)

lemma count_runs_total: "sum_list (map snd (count_runs xs)) = length xs"
  by (induction xs) (auto split: list.splits)

text \<open>On a sorted list every run holds all the copies of its value.\<close>

lemma count_runs_sorted:
  "sorted xs \<Longrightarrow> (s, c) \<in> set (count_runs xs) \<Longrightarrow> c = count_list xs s"
proof (induction xs arbitrary: s c)
  case Nil
  then show ?case by simp
next
  case (Cons x xs)
  have sx: "sorted xs" using Cons.prems(1) by simp
  show ?case
  proof (cases "count_runs xs")
    case Nil
    then have "remdups_adj xs = []" using count_runs_fst [of xs] by simp
    then have "xs = []" by simp
    then show ?thesis using Cons.prems by simp
  next
    case (Cons p rest)
    obtain y k where p: "p = (y, k)" by (cases p)
    have fsts: "remdups_adj xs = y # map fst rest"
      using count_runs_fst [of xs] Cons p by simp
    then have xs: "xs \<noteq> []" by auto
    have hd: "y = hd xs" using hd_remdups_adj [of xs] fsts by simp
    have dist: "distinct (y # map fst rest)"
      using sorted_distinct_remdups_adj [OF sx] fsts by simp
    have k: "k = count_list xs y"
      using Cons.IH [OF sx, of y k] Cons p by simp
    have rest: "(s', c') \<in> set rest \<Longrightarrow> c' = count_list xs s' \<and> s' \<noteq> y \<and> s' \<in> set xs" for s' c'
    proof -
      assume a: "(s', c') \<in> set rest"
      then have "c' = count_list xs s'" using Cons.IH [OF sx, of s' c'] Cons by simp
      moreover have "s' \<in> set (map fst rest)" using a by force
      then have "s' \<noteq> y" "s' \<in> set xs" using dist remdups_adj_set [of xs] fsts by auto
      ultimately show ?thesis by simp
    qed
    show ?thesis
    proof (cases "x = y")
      case True
      then have "count_runs (x # xs) = (y, Suc k) # rest" using Cons p by simp
      then have "(s, c) = (y, Suc k) \<or> (s, c) \<in> set rest" using Cons.prems(2) by simp
      then show ?thesis using True k rest by auto
    next
      case False
      have "x \<notin> set xs"
      proof
        assume "x \<in> set xs"
        then have "y \<le> x" using sx hd xs by (cases xs) auto
        moreover have "x \<le> y" using Cons.prems(1) hd xs by (cases xs) auto
        ultimately show False using False by simp
      qed
      then have cx: "count_list xs x = 0" by simp
      have "count_runs (x # xs) = (x, 1) # (y, k) # rest" using Cons p False by simp
      then have "(s, c) = (x, 1) \<or> (s, c) = (y, k) \<or> (s, c) \<in> set rest"
        using Cons.prems(2) by simp
      then show ?thesis using False k rest cx \<open>x \<notin> set xs\<close> hd xs by auto
    qed
  qed
qed

lemma count_list_sort: "count_list (sort xs) s = count_list xs s"
  by (simp add: count_list_eq_length_filter filter_sort)

lemma sig_less_iff: "sig_less s t \<longleftrightarrow> s < t"
  by (auto simp: sig_less_def less_prod_def')

lemma get_occurrences_int64:
  assumes "\<forall>s \<in> set sigs. int64_signature s"
  shows "get_occurrences sigs = Inr (np_unique_counts sigs)"
proof (cases "sigs = []")
  case True
  then show ?thesis
    by (simp add: get_occurrences_def components_def array_dtype_def)
next
  case False
  then have ne: "components sigs \<noteq> []"
    by (cases sigs) (simp_all add: components_def)
  have small: "\<forall>x \<in> set (components sigs). int x < 2 ^ 63"
  proof
    fix x assume "x \<in> set (components sigs)"
    then obtain s where s: "s \<in> set sigs" "x = fst s \<or> x = fst (snd s) \<or> x = snd (snd s)"
      by (auto simp: components_def)
    then have "x < 2 ^ 63" using assms by (auto simp: int64_signature_def)
    then have "int x < int (2 ^ 63)" by (simp only: of_nat_less_iff)
    then show "int x < 2 ^ 63" by simp
  qed
  then have "\<not> list_ex (\<lambda>x. 2 ^ 64 \<le> int x) (components sigs)"
    by (fastforce simp: list_ex_iff)
  moreover have "list_all (\<lambda>x. int x < 2 ^ 63) (components sigs)"
    using small by (simp add: list_all_iff)
  ultimately show ?thesis
    using ne by (simp add: get_occurrences_def array_dtype_def)
qed

text \<open>
  Against C4 as stated (one pair per distinct triple, for every list of triples): the
  triples \<open>(2^63, 0, 0)\<close> and \<open>(2^63 + 1, 0, 0)\<close> make an array of floats, in which both have
  the key \<open>2^63\<close>, and the result is that one key with the count 2.
\<close>

theorem get_occurrences_merges:
  "get_occurrences [(2 ^ 63, 0, 0), (2 ^ 63 + 1, 0, 0)] = Inr [((2 ^ 63, 0, 0), 2)]"
  by (simp add: get_occurrences_def components_def array_dtype_def float64_signature_def
        float64_of_nat_def bit_length.simps np_unique_counts_def Let_def)

text \<open>A component from \<open>2^64\<close> on makes an array of objects, which \<^verbatim>\<open>np.unique\<close> refuses.\<close>

lemma get_occurrences_object:
  "get_occurrences [(2 ^ 64, 0, 0)] = Inl TypeError"
  by (simp add: get_occurrences_def components_def array_dtype_def)

text \<open>
  C4, amended. For every list of signature triples whose components are all below \<open>2^63\<close>,
  \<open>get_occurrences\<close> returns a list of pairs: their first components are pairwise distinct
  and are exactly the triples of the input; each pair's count is the number of times its
  triple occurs in the input; and the pairs stand in strictly ascending lexicographic
  order of the triple (by \<open>n\<close>, then \<open>b\<close>, then \<open>l\<close>).
\<close>

theorem get_occurrences_spec:
  assumes "\<forall>s \<in> set sigs. int64_signature s"
  shows "\<exists>r. get_occurrences sigs = Inr r
    \<and> distinct (map fst r)
    \<and> set (map fst r) = set sigs
    \<and> map snd r = map (count_list sigs) (map fst r)
    \<and> sorted_wrt sig_less (map fst r)"
proof -
  let ?r = "np_unique_counts sigs"
  have res: "get_occurrences sigs = Inr ?r"
    using assms by (rule get_occurrences_int64)
  have fsts: "map fst ?r = remdups_adj (sort sigs)"
    by (simp add: np_unique_counts_def count_runs_fst)
  have d: "distinct (map fst ?r)"
    using fsts sorted_distinct_remdups_adj [of "sort sigs"] by simp
  have s: "set (map fst ?r) = set sigs"
    using fsts by simp
  have "\<And>p. p \<in> set ?r \<Longrightarrow> snd p = count_list sigs (fst p)"
  proof -
    fix p assume "p \<in> set ?r"
    then have "(fst p, snd p) \<in> set (count_runs (sort sigs))"
      by (simp add: np_unique_counts_def)
    then have "snd p = count_list (sort sigs) (fst p)"
      using count_runs_sorted [of "sort sigs"] by simp
    then show "snd p = count_list sigs (fst p)" by (simp add: count_list_sort)
  qed
  then have c: "map snd ?r = map (count_list sigs) (map fst ?r)"
    by simp
  have "sorted_wrt (<) (map fst ?r)"
    using fsts d by (simp add: strict_sorted_iff)
  then have o: "sorted_wrt sig_less (map fst ?r)"
    by (simp add: sig_less_iff [abs_def])
  show ?thesis using res d s c o by blast
qed

text \<open>
  The theorem at four signatures of which two are equal: three pairs, in ascending
  order, the repeated signature with the count 2.
\<close>

theorem get_occurrences_spec_witness:
  "int64_signature (2, 1, 1) \<and> int64_signature (1, 0, 0) \<and> int64_signature (2, 0, 0)
   \<and> get_occurrences [(2, 1, 1), (1, 0, 0), (2, 1, 1), (2, 0, 0)]
       = Inr [((1, 0, 0), 1), ((2, 0, 0), 1), ((2, 1, 1), 2)]
   \<and> (\<exists>r. get_occurrences [(2, 1, 1), (1, 0, 0), (2, 1, 1), (2, 0, 0)] = Inr r
         \<and> distinct (map fst r)
         \<and> set (map fst r) = set [(2, 1, 1), (1, 0, 0), (2, 1, 1), (2, 0, 0)]
         \<and> map snd r = map (count_list [(2, 1, 1), (1, 0, 0), (2, 1, 1), (2, 0, 0)]) (map fst r)
         \<and> sorted_wrt sig_less (map fst r))"
proof -
  let ?w = "[(2, 1, 1), (1, 0, 0), (2, 1, 1), (2, 0, 0)] :: signature list"
  have i: "int64_signature (2, 1, 1)" "int64_signature (1, 0, 0)" "int64_signature (2, 0, 0)"
    by (simp_all add: int64_signature_def)
  then have all: "\<forall>s \<in> set ?w. int64_signature s" by simp
  have e: "get_occurrences ?w = Inr [((1, 0, 0), 1), ((2, 0, 0), 1), ((2, 1, 1), 2)]"
    by code_simp
  show ?thesis
    using get_occurrences_spec [OF all] i e by blast
qed

section \<open>Groups of equal CNAPs\<close>

lemma set_unique_loop: "set (unique_loop xs out) = set out \<union> set xs"
  by (induction xs arbitrary: out) auto

lemma distinct_unique_loop: "distinct out \<Longrightarrow> distinct (unique_loop xs out)"
  by (induction xs arbitrary: out) auto

lemma enumerate_filter_indices:
  "map fst (filter (\<lambda>(i, comp). comp = key) (enumerate 0 xs))
     = filter (\<lambda>i. xs ! i = key) [0..<length xs]"
proof (induction xs rule: rev_induct)
  case Nil
  then show ?case by simp
next
  case (snoc x xs)
  have "filter (\<lambda>i. (xs @ [x]) ! i = key) [0..<length xs] = filter (\<lambda>i. xs ! i = key) [0..<length xs]"
    by (rule filter_cong) (auto simp: nth_append)
  then show ?case using snoc
    by (simp add: enumerate_append_eq)
qed

lemma group_sizes:
  "distinct keys \<Longrightarrow>
     sum_list (map (\<lambda>k. length (filter (\<lambda>i. f i = k) js)) keys)
       = length (filter (\<lambda>i. f i \<in> set keys) js)"
proof (induction keys)
  case Nil
  then show ?case by simp
next
  case (Cons k ks)
  have "length (filter (\<lambda>i. f i = k) js) + length (filter (\<lambda>i. f i \<in> set ks) js)
          = length (filter (\<lambda>i. f i = k \<or> f i \<in> set ks) js)"
    using Cons.prems by (induction js) auto
  then show ?case using Cons by simp
qed

text \<open>
  C6. For every list of \<open>N\<close> CNAPs, \<open>group_CNAPs\<close> returns the keys and as many groups; the
  keys are pairwise distinct; group \<open>k\<close> is the ascending list of exactly the indices whose
  CNAP equals key \<open>k\<close>; every index below \<open>N\<close> lies in exactly one group; and the sizes of
  the groups add up to \<open>N\<close>.
\<close>

theorem group_CNAPs_partition:
  fixes CNAPs :: "'a list"
  defines "keys \<equiv> fst (group_CNAPs CNAPs)" and "groups \<equiv> snd (group_CNAPs CNAPs)"
  shows "length groups = length keys
    \<and> distinct keys
    \<and> (\<forall>k < length keys. groups ! k = filter (\<lambda>i. CNAPs ! i = keys ! k) [0..<length CNAPs])
    \<and> (\<forall>i < length CNAPs. \<exists>!k. k < length groups \<and> i \<in> set (groups ! k))
    \<and> sum_list (map length groups) = length CNAPs"
proof -
  have keys: "keys = unique_CNAPs CNAPs"
    by (simp add: keys_def group_CNAPs_def Let_def)
  have groups: "groups = map (\<lambda>key. filter (\<lambda>i. CNAPs ! i = key) [0..<length CNAPs]) keys"
    by (simp add: groups_def keys_def group_CNAPs_def Let_def enumerate_filter_indices)
  have len: "length groups = length keys"
    by (simp add: groups)
  have dist: "distinct keys"
    by (simp add: keys unique_CNAPs_def distinct_unique_loop)
  have set_keys: "set keys = set CNAPs"
    by (simp add: keys unique_CNAPs_def set_unique_loop)
  have nth: "\<forall>k < length keys. groups ! k = filter (\<lambda>i. CNAPs ! i = keys ! k) [0..<length CNAPs]"
    by (simp add: groups)
  have one: "\<exists>!k. k < length groups \<and> i \<in> set (groups ! k)" if i: "i < length CNAPs" for i
  proof -
    have "CNAPs ! i \<in> set keys" using i set_keys by simp
    then obtain k where k: "k < length keys" "keys ! k = CNAPs ! i"
      by (auto simp: in_set_conv_nth)
    have mem: "j < length keys \<Longrightarrow> i \<in> set (groups ! j) \<longleftrightarrow> keys ! j = CNAPs ! i" for j
      using i by (auto simp: groups)
    show ?thesis
    proof (rule ex1I [of _ k])
      show "k < length groups \<and> i \<in> set (groups ! k)"
        using k mem len by simp
    next
      fix j assume "j < length groups \<and> i \<in> set (groups ! j)"
      then have "j < length keys" "keys ! j = keys ! k" using mem len k by auto
      then show "j = k" using dist k(1) by (simp add: nth_eq_iff_index_eq)
    qed
  qed
  have "sum_list (map length groups)
          = sum_list (map (\<lambda>k. length (filter (\<lambda>i. CNAPs ! i = k) [0..<length CNAPs])) keys)"
    by (simp add: groups comp_def)
  also have "\<dots> = length (filter (\<lambda>i. CNAPs ! i \<in> set keys) [0..<length CNAPs])"
    using dist by (rule group_sizes)
  also have "\<dots> = length CNAPs"
    by (simp add: set_keys)
  finally have total: "sum_list (map length groups) = length CNAPs" .
  show ?thesis using len dist nth one total by blast
qed

text \<open>
  The theorem at three CNAPs of which the first and the last are equal: the groups are
  \<open>[0, 2]\<close> and \<open>[1]\<close>, and index 2 lies in exactly one of them.
\<close>

theorem group_CNAPs_partition_witness:
  "group_CNAPs [[((2, 1, 1), 3)], [], [((2, 1, 1), 3 :: nat)] :: (signature \<times> nat) list]
     = ([[((2, 1, 1), 3)], []], [[0, 2], [1]])
   \<and> (\<exists>!k. k < length (snd (group_CNAPs [[((2, 1, 1), 3)], [], [((2, 1, 1), 3 :: nat)] :: (signature \<times> nat) list]))
        \<and> 2 \<in> set (snd (group_CNAPs [[((2, 1, 1), 3)], [], [((2, 1, 1), 3 :: nat)] :: (signature \<times> nat) list]) ! k))"
proof -
  let ?c = "[[((2, 1, 1), 3)], [], [((2, 1, 1), 3 :: nat)]] :: (signature \<times> nat) list list"
  have e: "group_CNAPs ?c = ([[((2, 1, 1), 3)], []], [[0, 2], [1]])"
    by code_simp
  have "\<forall>i < length ?c. \<exists>!k. k < length (snd (group_CNAPs ?c)) \<and> i \<in> set (snd (group_CNAPs ?c) ! k)"
    using group_CNAPs_partition [of ?c] by blast
  then have "\<exists>!k. k < length (snd (group_CNAPs ?c)) \<and> 2 \<in> set (snd (group_CNAPs ?c) ! k)"
    by simp
  then show ?thesis using e by blast
qed

section \<open>The unique bonds\<close>

lemma fill_diagonal_zero_diagonal:
  assumes "zero_diagonal m"
  shows "fill_diagonal m 0 = m"
proof (rule nth_equalityI)
  show "length (fill_diagonal m 0) = length m"
    by (simp add: fill_diagonal_def)
next
  fix i assume "i < length (fill_diagonal m 0)"
  then have i: "i < length m" by (simp add: fill_diagonal_def)
  have "(m ! i)[i := 0] = m ! i"
  proof (cases "i < length (m ! i)")
    case True
    moreover have "m ! i ! i = 0" using assms i by (simp add: zero_diagonal_def)
    ultimately show ?thesis by (metis list_update_id)
  next
    case False
    then show ?thesis by (intro list_update_beyond) simp
  qed
  then show "fill_diagonal m 0 ! i = m ! i"
    using i by (simp add: fill_diagonal_def nth_enumerate_eq)
qed

lemma Graph_init_adj_mat:
  "zero_diagonal m \<Longrightarrow> Graph_init m pos fd root = Inr g \<Longrightarrow> adj_mat g = m"
  by (auto simp: Graph_init_def Let_def fill_diagonal_zero_diagonal split: if_splits)

lemma in_np_argwhere:
  "(i, j) \<in> set (np_argwhere b) \<longleftrightarrow> i < length b \<and> j < length (b ! i) \<and> b ! i ! j"
proof
  assume "(i, j) \<in> set (np_argwhere b)"
  then show "i < length b \<and> j < length (b ! i) \<and> b ! i ! j"
    by (auto simp: np_argwhere_def np_where_def in_set_enumerate_eq)
next
  assume h: "i < length b \<and> j < length (b ! i) \<and> b ! i ! j"
  then have "(i, b ! i) \<in> set (enumerate 0 b)"
    by (simp add: in_set_enumerate_eq)
  moreover have "(i, j) \<in> set (map (\<lambda>j. (i, j)) (np_where (b ! i)))"
    using h by (simp add: np_where_def)
  ultimately show "(i, j) \<in> set (np_argwhere b)"
    by (force simp: np_argwhere_def)
qed

lemma in_argwhere_eq_one:
  "(i, j) \<in> set (np_argwhere (eq_one m)) \<longleftrightarrow> i < length m \<and> j < length (m ! i) \<and> m ! i ! j = 1"
  by (auto simp: in_np_argwhere eq_one_def)

lemma set_np_unique: "set (np_unique xs) = set xs"
  by (simp add: np_unique_def)

lemma distinct_np_unique: "distinct (np_unique xs)"
  by (simp add: np_unique_def sorted_distinct_remdups_adj)

lemma in_unique_bonds:
  assumes "square (adj_mat g)" "symmetric (adj_mat g)" "zero_diagonal (adj_mat g)"
  shows "(i, j) \<in> set (unique_bonds g) \<longleftrightarrow> i < j \<and> j < length (adj_mat g) \<and> adj_mat g ! i ! j = 1"
proof
  let ?m = "adj_mat g"
  assume "(i, j) \<in> set (unique_bonds g)"
  then obtain a b where ab: "(a, b) \<in> set (np_argwhere (eq_one ?m))" "(i, j) = sort_pair (a, b)"
    by (auto simp: unique_bonds_def set_np_unique)
  then have a: "a < length ?m" and b: "b < length (?m ! a)" and e: "?m ! a ! b = 1"
    by (simp_all add: in_argwhere_eq_one)
  have b': "b < length ?m" using assms(1) a b by (simp add: square_def)
  have ne: "a \<noteq> b" using assms(3) a e by (auto simp: zero_diagonal_def)
  have sym: "?m ! b ! a = 1" using assms(2) a b' e by (simp add: symmetric_def)
  show "i < j \<and> j < length ?m \<and> ?m ! i ! j = 1"
    using ab(2) a b' e ne sym by (auto simp: sort_pair_def min_def max_def)
next
  let ?m = "adj_mat g"
  assume h: "i < j \<and> j < length ?m \<and> ?m ! i ! j = 1"
  then have "j < length (?m ! i)" using assms(1) by (simp add: square_def)
  then have "(i, j) \<in> set (np_argwhere (eq_one ?m))"
    using h by (simp add: in_argwhere_eq_one)
  moreover have "sort_pair (i, j) = (i, j)" using h by (simp add: sort_pair_def)
  ultimately show "(i, j) \<in> set (unique_bonds g)"
    by (force simp: unique_bonds_def set_np_unique)
qed

text \<open>
  C5. For every Graph built from a square, symmetric matrix with a zero diagonal (with
  either setting of \<open>fill_diag\<close>), \<open>unique_bonds\<close> holds exactly the pairs \<open>(i, j)\<close> with
  \<open>i < j\<close> and \<open>relation[i][j] = 1\<close>, and holds none of them twice. The entries need not
  be 0 or 1: an entry other than 1 is no bond.
\<close>

theorem unique_bonds_exact:
  assumes "square m" and "symmetric m" and "zero_diagonal m"
    and "Graph_init m pos fd root = Inr g"
  shows "set (unique_bonds g) = {(i, j). i < j \<and> j < length m \<and> m ! i ! j = 1}
    \<and> distinct (unique_bonds g)"
proof -
  have "adj_mat g = m" using assms(3,4) by (rule Graph_init_adj_mat)
  then have "set (unique_bonds g) = {(i, j). i < j \<and> j < length m \<and> m ! i ! j = 1}"
    using in_unique_bonds [of g] assms(1-3) by auto
  moreover have "distinct (unique_bonds g)"
    by (simp add: unique_bonds_def distinct_np_unique)
  ultimately show ?thesis by simp
qed

text \<open>The theorem at the triangle: its bonds are \<open>(0, 1)\<close>, \<open>(0, 2)\<close> and \<open>(1, 2)\<close>.\<close>

theorem unique_bonds_exact_witness:
  "square triangle \<and> symmetric triangle \<and> zero_diagonal triangle
   \<and> Graph_init triangle no_positions True None
       = Inr \<lparr>adj_mat = triangle, adj_list = [[1, 2], [0, 2], [0, 1]], positions = no_positions, root_node = None\<rparr>
   \<and> unique_bonds \<lparr>adj_mat = triangle, adj_list = [[1, 2], [0, 2], [0, 1]], positions = no_positions, root_node = None\<rparr>
       = [(0, 1), (0, 2), (1, 2)]
   \<and> set (unique_bonds \<lparr>adj_mat = triangle, adj_list = [[1, 2], [0, 2], [0, 1]], positions = no_positions, root_node = None\<rparr>)
       = {(i, j). i < j \<and> j < length triangle \<and> triangle ! i ! j = 1}
   \<and> distinct (unique_bonds \<lparr>adj_mat = triangle, adj_list = [[1, 2], [0, 2], [0, 1]], positions = no_positions, root_node = None\<rparr>)"
proof -
  let ?g = "\<lparr>adj_mat = triangle, adj_list = [[1, 2], [0, 2], [0, 1]], positions = no_positions, root_node = None\<rparr>"
  have sq: "square triangle" by code_simp
  have sy: "symmetric triangle" by code_simp
  have zd: "zero_diagonal triangle" by code_simp
  have gi: "Graph_init triangle no_positions True None = Inr ?g" by code_simp
  have ub: "unique_bonds ?g = [(0, 1), (0, 2), (1, 2)]" by code_simp
  show ?thesis
    using unique_bonds_exact [OF sq sy zd gi] sq sy zd gi ub by simp
qed

section \<open>Construction and the shape of the matrix\<close>

text \<open>
  Against C7 as stated (a matrix that is not square makes the construction fail): the
  constructor accepts the matrix with two rows and three columns, and returns a Graph
  with two nodes.
\<close>

theorem Graph_new_non_square:
  "\<not> square two_by_three
   \<and> Graph_new (Array2 two_by_three) no_positions None
       = Inr \<lparr>adj_mat = [[0, 1, 0], [1, 0, 1]], adj_list = [[1], [0, 2]],
              positions = PyList [], root_node = None\<rparr>"
  by code_simp

text \<open>
  C7, amended. \<open>Graph.__init__\<close> has no shape check of its own. With \<open>fill_diag\<close> at its
  default, the construction fails for an array of fewer than two dimensions, with the
  \<^verbatim>\<open>ValueError\<close> of \<^verbatim>\<open>np.fill_diagonal\<close>. For every two-dimensional matrix, square or not, it
  returns a Graph (with either setting of \<open>fill_diag\<close>), with one node and one
  adjacency-list entry per row of the matrix, and with the positions and the root node
  it was given.
\<close>

theorem Graph_construction_shape:
  "Graph_new (Array0 x) node_positions root = Inl ValueError
   \<and> Graph_new (Array1 v) node_positions root = Inl ValueError
   \<and> (\<exists>g. Graph_new (Array2 m) node_positions root = Inr g
         \<and> number_of_nodes g = length m
         \<and> length (adj_list g) = length m
         \<and> positions g = node_positions
         \<and> root_node g = root)
   \<and> (\<exists>g. Graph_init m node_positions fill_diag root = Inr g
         \<and> number_of_nodes g = length m
         \<and> length (adj_list g) = length m
         \<and> positions g = node_positions
         \<and> root_node g = root)"
proof -
  have init: "\<exists>g. Graph_init m node_positions fd root = Inr g
         \<and> number_of_nodes g = length m
         \<and> length (adj_list g) = length m
         \<and> positions g = node_positions
         \<and> root_node g = root" for fd
    by (simp add: Graph_init_def Let_def number_of_nodes_def make_adj_list_def eq_one_def
          fill_diagonal_def)
  show ?thesis
    using init [of True] init [of fill_diag] by simp
qed

section \<open>Indices out of range\<close>

lemma map_result_error:
  assumes "\<And>x e. f x = Inl e \<Longrightarrow> e = err"
    and "\<exists>x \<in> set xs. f x = Inl err"
  shows "map_result f xs = Inl err"
  using assms(2)
proof (induction xs)
  case Nil
  then show ?case by simp
next
  case (Cons x xs)
  show ?case
  proof (cases "f x")
    case (Inl e)
    then show ?thesis using assms(1) by simp
  next
    case (Inr y)
    then have "\<exists>x \<in> set xs. f x = Inl err" using Cons.prems by auto
    then have "map_result f xs = Inl err" by (rule Cons.IH)
    then show ?thesis using Inr by simp
  qed
qed

lemma py_index_error: "py_index xs i = Inl e \<Longrightarrow> e = IndexError"
  by (auto simp: py_index_def split: if_splits)

lemma py_index_out_of_range:
  "i < - int (length xs) \<or> int (length xs) \<le> i \<Longrightarrow> py_index xs i = Inl IndexError"
  by (auto simp: py_index_def)

lemma take_indices_out_of_range:
  assumes "v \<in> set idx" and "v < - int (length xs) \<or> int (length xs) \<le> v"
  shows "take_indices xs idx = Inl IndexError"
  unfolding take_indices_def
proof (rule map_result_error)
  show "\<And>x e. py_index xs x = Inl e \<Longrightarrow> e = IndexError"
    by (rule py_index_error)
  show "\<exists>x \<in> set idx. py_index xs x = Inl IndexError"
    using assms py_index_out_of_range by blast
qed

lemma map_result_all:
  "(\<And>x. x \<in> set xs \<Longrightarrow> f x = Inr (h x)) \<Longrightarrow> map_result f xs = Inr (map h xs)"
  by (induction xs) auto

lemma fill_diagonal_twice: "fill_diagonal (fill_diagonal a 0) 0 = fill_diagonal a 0"
  by (rule nth_equalityI) (simp_all add: fill_diagonal_def nth_enumerate_eq)

lemma take_indices_wrapped:
  assumes "\<forall>v \<in> set idx. - int (length xs) \<le> v \<and> v < int (length xs)"
  shows "take_indices xs idx = Inr (map (\<lambda>v. xs ! node_of (length xs) v) idx)"
  unfolding take_indices_def
  using assms by (intro map_result_all) (auto simp: py_index_def node_of_def)

lemma ix_select_wrapped:
  assumes "square a" and "\<forall>v \<in> set idx. - int (length a) \<le> v \<and> v < int (length a)"
  shows "ix_select a idx
    = Inr (map (\<lambda>i. map (\<lambda>j. a ! node_of (length a) i ! node_of (length a) j) idx) idx)"
proof -
  have rows: "take_indices a idx = Inr (map (\<lambda>v. a ! node_of (length a) v) idx)"
    using assms(2) by (rule take_indices_wrapped)
  have "map_result (\<lambda>row. take_indices row idx) (map (\<lambda>v. a ! node_of (length a) v) idx)
          = Inr (map (\<lambda>row. map (\<lambda>j. row ! node_of (length a) j) idx)
                   (map (\<lambda>v. a ! node_of (length a) v) idx))"
  proof (rule map_result_all)
    fix row assume "row \<in> set (map (\<lambda>v. a ! node_of (length a) v) idx)"
    then obtain v where v: "v \<in> set idx" "row = a ! node_of (length a) v" by auto
    then have "node_of (length a) v < length a"
      using assms(2) by (auto simp: node_of_def)
    then have "row \<in> set a" using v by simp
    then have len: "length row = length a" using assms(1) by (simp add: square_def)
    then show "take_indices row idx = Inr (map (\<lambda>j. row ! node_of (length a) j) idx)"
      using assms(2) take_indices_wrapped [of idx row] by simp
  qed
  then show ?thesis using rows by (simp add: ix_select_def comp_def)
qed

text \<open>
  C8, amended. For every Graph with \<open>N\<close> nodes, \<open>make_subgraph\<close> fails with \<^verbatim>\<open>IndexError\<close> when
  its index list (a Python list or an integer array) contains a value \<open>v\<close> with \<open>v < -N\<close>
  or \<open>v \<ge> N\<close>. The values from \<open>-N\<close> to \<open>-1\<close> are in range for numpy: on a Graph with a
  square matrix and an array of \<open>N\<close> positions, a call with a non-empty index list whose
  values all lie in \<open>[-N, N)\<close> returns the induced Graph, in which a negative \<open>v\<close> stands
  for node \<open>N + v\<close>.
\<close>

theorem make_subgraph_index_range:
  assumes "nodes = ListArg idx \<or> nodes = ArrayArg idx"
  shows "((\<exists>v \<in> set idx. v < - int (number_of_nodes g) \<or> int (number_of_nodes g) \<le> v)
            \<longrightarrow> make_subgraph g nodes = Inl IndexError)
    \<and> (square (adj_mat g) \<and> positions g = NdArray ps \<and> length ps = number_of_nodes g
          \<and> idx \<noteq> []
          \<and> (\<forall>v \<in> set idx. - int (number_of_nodes g) \<le> v \<and> v < int (number_of_nodes g))
        \<longrightarrow> make_subgraph g nodes =
            Inr \<lparr>adj_mat = fill_diagonal (map (\<lambda>i. map (\<lambda>j.
                        adj_mat g ! node_of (number_of_nodes g) i ! node_of (number_of_nodes g) j) idx) idx) 0,
                 adj_list = make_adj_list (fill_diagonal (map (\<lambda>i. map (\<lambda>j.
                        adj_mat g ! node_of (number_of_nodes g) i ! node_of (number_of_nodes g) j) idx) idx) 0),
                 positions = NdArray (map (\<lambda>v. ps ! node_of (number_of_nodes g) v) idx),
                 root_node = None\<rparr>)"
proof (intro conjI impI)
  assume "\<exists>v \<in> set idx. v < - int (number_of_nodes g) \<or> int (number_of_nodes g) \<le> v"
  then obtain v where v: "v \<in> set idx"
    "v < - int (number_of_nodes g) \<or> int (number_of_nodes g) \<le> v" by blast
  then have "idx \<noteq> []" by auto
  then have "np_array nodes = IntIndex idx"
    using assms by (cases idx) auto
  moreover have "ix_select (adj_mat g) idx = Inl IndexError"
    using take_indices_out_of_range [of v idx "adj_mat g"] v
    by (simp add: ix_select_def number_of_nodes_def)
  ultimately show "make_subgraph g nodes = Inl IndexError"
    by (simp add: make_subgraph_def)
next
  let ?n = "number_of_nodes g"
  assume h: "square (adj_mat g) \<and> positions g = NdArray ps \<and> length ps = ?n \<and> idx \<noteq> []
    \<and> (\<forall>v \<in> set idx. - int ?n \<le> v \<and> v < int ?n)"
  then have np: "np_array nodes = IntIndex idx"
    using assms by (cases idx) auto
  have sel: "ix_select (adj_mat g) idx
      = Inr (map (\<lambda>i. map (\<lambda>j. adj_mat g ! node_of ?n i ! node_of ?n j) idx) idx)"
    using h ix_select_wrapped [of "adj_mat g" idx] by (simp add: number_of_nodes_def)
  have pos: "index_positions (positions g) idx = Inr (NdArray (map (\<lambda>v. ps ! node_of ?n v) idx))"
    using h take_indices_wrapped [of idx ps] by simp
  show "make_subgraph g nodes =
            Inr \<lparr>adj_mat = fill_diagonal (map (\<lambda>i. map (\<lambda>j.
                        adj_mat g ! node_of ?n i ! node_of ?n j) idx) idx) 0,
                 adj_list = make_adj_list (fill_diagonal (map (\<lambda>i. map (\<lambda>j.
                        adj_mat g ! node_of ?n i ! node_of ?n j) idx) idx) 0),
                 positions = NdArray (map (\<lambda>v. ps ! node_of ?n v) idx),
                 root_node = None\<rparr>"
    using sel pos np
    by (simp add: make_subgraph_def is_not_new_list_def Graph_init_def Let_def fill_diagonal_twice)
qed

text \<open>
  The theorem at the two-node graph with positions: the index list \<open>[0, 2]\<close> is refused,
  and \<open>[-1]\<close> gives the subgraph of node 1.
\<close>

theorem make_subgraph_index_range_witness:
  "make_subgraph \<lparr>adj_mat = dimer, adj_list = [[1], [0]], positions = dimer_positions, root_node = None\<rparr>
        (ListArg [0, 2]) = Inl IndexError
   \<and> make_subgraph \<lparr>adj_mat = dimer, adj_list = [[1], [0]], positions = dimer_positions, root_node = None\<rparr>
        (ListArg [- 1])
       = Inr \<lparr>adj_mat = [[0]], adj_list = [[]], positions = NdArray [(1, 1, 0)], root_node = None\<rparr>"
proof -
  let ?g = "\<lparr>adj_mat = dimer, adj_list = [[1], [0]], positions = dimer_positions, root_node = None\<rparr>"
  let ?ps = "[(0, 0, 0), (1, 1, 0)] :: (int \<times> int \<times> int) list"
  let ?sub = "fill_diagonal (map (\<lambda>i. map (\<lambda>j.
      adj_mat ?g ! node_of (number_of_nodes ?g) i ! node_of (number_of_nodes ?g) j) [- 1]) [- 1]) 0"
  let ?res = "\<lparr>adj_mat = ?sub, adj_list = make_adj_list ?sub,
      positions = NdArray (map (\<lambda>v. ?ps ! node_of (number_of_nodes ?g) v) [- 1]), root_node = None\<rparr>"
  have n: "number_of_nodes ?g = 2" by code_simp
  have sq: "square (adj_mat ?g)" by code_simp
  have ps: "positions ?g = NdArray ?ps" by code_simp
  have len: "length ?ps = number_of_nodes ?g" by code_simp
  have rng: "\<forall>v \<in> set [- 1]. - int (number_of_nodes ?g) \<le> v \<and> v < int (number_of_nodes ?g)"
    using n by simp
  have bad: "\<exists>v \<in> set [0, 2]. v < - int (number_of_nodes ?g) \<or> int (number_of_nodes ?g) \<le> v"
    using n by simp
  have first: "make_subgraph ?g (ListArg [0, 2]) = Inl IndexError"
    using make_subgraph_index_range [of "ListArg [0, 2]" "[0, 2]" ?g] bad by blast
  have second: "make_subgraph ?g (ListArg [- 1]) = Inr ?res"
    using make_subgraph_index_range [of "ListArg [- 1]" "[- 1]" ?g ?ps] sq ps len rng by blast
  have ev: "?res = \<lparr>adj_mat = [[0]], adj_list = [[]], positions = NdArray [(1, 1, 0)], root_node = None\<rparr>"
    by code_simp
  from second have "make_subgraph ?g (ListArg [- 1])
      = Inr \<lparr>adj_mat = [[0]], adj_list = [[]], positions = NdArray [(1, 1, 0)], root_node = None\<rparr>"
    unfolding ev .
  then show ?thesis using first by blast
qed

text \<open>
  Against C8 as stated (every value outside \<open>[0, N)\<close> fails, the negative ones included):
  on the two-node graph with an array of positions, \<open>make_subgraph([-1])\<close> returns the
  one-node subgraph of node 1.
\<close>

theorem make_subgraph_negative_index:
  "(case Graph_init dimer dimer_positions True None of
      Inl e \<Rightarrow> Inl e
    | Inr g \<Rightarrow> make_subgraph g (ListArg [- 1]))
   = Inr \<lparr>adj_mat = [[0]], adj_list = [[]], positions = NdArray [(1, 1, 0)], root_node = None\<rparr>"
  by code_simp

section \<open>Subgraphs of a Graph without positions\<close>

text \<open>
  C1 says that \<open>make_subgraph\<close> succeeds whether or not the Graph carries positions, and the
  comment on its last line says the same. On the two-node graph built without positions,
  \<open>make_subgraph([0])\<close> raises \<^verbatim>\<open>TypeError\<close>: the test \<^verbatim>\<open>self.positions is not []\<close> always
  holds, so the default list \<^verbatim>\<open>[]\<close> is subscripted by the index array.
\<close>

theorem make_subgraph_without_positions:
  "(case Graph_init dimer no_positions True None of
      Inl e \<Rightarrow> Inl e
    | Inr g \<Rightarrow> make_subgraph g (ListArg [0])) = Inl TypeError"
  by code_simp

text \<open>The same for every Graph whose positions are a Python list, and every index list.\<close>

lemma make_subgraph_PyList_fails:
  "positions g = PyList ps \<Longrightarrow> \<exists>e. make_subgraph g nodes = Inl e"
  by (auto simp: make_subgraph_def is_not_new_list_def Let_def split: index_array.splits sum.splits)

lemma take_indices_in_range:
  assumes "\<forall>v \<in> set idx. 0 \<le> v \<and> v < int (length xs)"
  shows "take_indices xs idx = Inr (map (\<lambda>v. xs ! nat v) idx)"
  unfolding take_indices_def
  using assms by (intro map_result_all) (simp add: py_index_def)

lemma ix_select_in_range:
  assumes "square a" and "\<forall>v \<in> set idx. 0 \<le> v \<and> v < int (length a)"
  shows "ix_select a idx = Inr (map (\<lambda>i. map (\<lambda>j. a ! nat i ! nat j) idx) idx)"
proof -
  have rows: "take_indices a idx = Inr (map (\<lambda>v. a ! nat v) idx)"
    using assms(2) by (rule take_indices_in_range)
  have "map_result (\<lambda>row. take_indices row idx) (map (\<lambda>v. a ! nat v) idx)
          = Inr (map (\<lambda>row. map (\<lambda>j. row ! nat j) idx) (map (\<lambda>v. a ! nat v) idx))"
  proof (rule map_result_all)
    fix row assume "row \<in> set (map (\<lambda>v. a ! nat v) idx)"
    then have "row \<in> set a" using assms(2) by auto
    then have "length row = length a" using assms(1) by (simp add: square_def)
    then show "take_indices row idx = Inr (map (\<lambda>j. row ! nat j) idx)"
      using assms(2) by (simp add: take_indices_in_range)
  qed
  then show ?thesis using rows by (simp add: ix_select_def comp_def)
qed

text \<open>
  What the rest of C1 describes is what the code does on a Graph that has an array of
  positions, one per node: for indices in \<open>[0, N)\<close> (an integer array, or a Python list
  that is not empty) the result is the Graph induced on them in the given order, with its
  diagonal cleared and the positions re-indexed by the same indices.
\<close>

lemma make_subgraph_induced:
  assumes "square (adj_mat g)" and "positions g = NdArray ps"
    and "length ps = number_of_nodes g"
    and "\<forall>v \<in> set idx. 0 \<le> v \<and> v < int (number_of_nodes g)"
    and "np_array nodes = IntIndex idx"
  shows "make_subgraph g nodes =
     Inr \<lparr>adj_mat = fill_diagonal (map (\<lambda>i. map (\<lambda>j. adj_mat g ! nat i ! nat j) idx) idx) 0,
          adj_list = make_adj_list (fill_diagonal (map (\<lambda>i. map (\<lambda>j. adj_mat g ! nat i ! nat j) idx) idx) 0),
          positions = NdArray (map (\<lambda>v. ps ! nat v) idx),
          root_node = None\<rparr>"
proof -
  have sel: "ix_select (adj_mat g) idx = Inr (map (\<lambda>i. map (\<lambda>j. adj_mat g ! nat i ! nat j) idx) idx)"
    using assms(1,4) by (simp add: ix_select_in_range number_of_nodes_def)
  have pos: "index_positions (positions g) idx = Inr (NdArray (map (\<lambda>v. ps ! nat v) idx))"
    using assms(2,3,4) by (simp add: take_indices_in_range)
  show ?thesis
    using sel pos assms(5)
    by (simp add: make_subgraph_def is_not_new_list_def Graph_init_def Let_def fill_diagonal_twice)
qed

section \<open>The fully connected cluster of four nodes\<close>

text \<open>
  C3 gives the signatures, CNAPs and groups of \<open>K4\<close>. On the Graph built from the matrix
  alone, \<open>compute_signatures\<close> raises \<^verbatim>\<open>TypeError\<close> at the first common-neighbour
  subgraph, for the reason given for \<open>make_subgraph\<close> above.
\<close>

theorem K4_signatures_without_positions:
  "(case Graph_init K4 no_positions True None of
      Inl e \<Rightarrow> Inl e
    | Inr g \<Rightarrow> compute_signatures g) = Inl TypeError"
  by code_simp

text \<open>
  With an array of positions the values are those of C3: the signature \<open>(2, 1, 1)\<close> for
  each of the six bonds, one CNAP for all four nodes, and one group of all four indices.
\<close>

lemma K4_with_positions:
  "(case Graph_init K4 K4_positions True None of
      Inl e \<Rightarrow> Inl e
    | Inr g \<Rightarrow> compute_signatures g)
     = Inr [(2, 1, 1), (2, 1, 1), (2, 1, 1), (2, 1, 1), (2, 1, 1), (2, 1, 1)]"
  "(case Graph_init K4 K4_positions True None of
      Inl e \<Rightarrow> Inl e
    | Inr g \<Rightarrow> get_CNAPs g)
     = Inr [[((2, 1, 1), 3)], [((2, 1, 1), 3)], [((2, 1, 1), 3)], [((2, 1, 1), 3)]]"
  "group_CNAPs [[((2, 1, 1), 3)], [((2, 1, 1), 3)], [((2, 1, 1), 3)], [((2, 1, 1), 3 :: nat)] :: (signature \<times> nat) list]
     = ([[((2, 1, 1), 3)]], [[0, 1, 2, 3]])"
  by code_simp+

section \<open>CNAPs and degrees\<close>

lemma map_result_length: "map_result f xs = Inr ys \<Longrightarrow> length ys = length xs"
  by (induction xs arbitrary: ys) (auto split: sum.splits)

lemma compute_signatures_length:
  "compute_signatures g = Inr sigs \<Longrightarrow> length sigs = length (unique_bonds g)"
  by (auto simp: compute_signatures_def get_cns_subgraphs_def split: sum.splits
           dest!: map_result_length)

lemma append_sigs_lengths:
  "append_sigs zs spn = Inr spn' \<Longrightarrow>
     length spn' = length spn
     \<and> (\<forall>n < length spn. length (spn' ! n)
          = length (spn ! n) + length (filter (\<lambda>z. fst (snd z) = n) zs)
              + length (filter (\<lambda>z. snd (snd z) = n) zs))"
proof (induction zs arbitrary: spn)
  case Nil
  then show ?case by simp
next
  case (Cons z zs)
  obtain sg n1 n2 where z: "z = (sg, n1, n2)" by (cases z)
  let ?spn1 = "spn[n1 := spn ! n1 @ [sg]]"
  let ?spn2 = "?spn1[n2 := ?spn1 ! n2 @ [sg]]"
  from Cons.prems z have n1: "n1 < length spn" and n2: "n2 < length spn"
    and rest: "append_sigs zs ?spn2 = Inr spn'"
    by (auto simp: Let_def split: if_splits)
  have IH: "length spn' = length ?spn2
     \<and> (\<forall>n < length ?spn2. length (spn' ! n)
          = length (?spn2 ! n) + length (filter (\<lambda>z. fst (snd z) = n) zs)
              + length (filter (\<lambda>z. snd (snd z) = n) zs))"
    using Cons.IH [OF rest] .
  have step: "length (?spn2 ! n) = length (spn ! n) + (if n1 = n then 1 else 0) + (if n2 = n then 1 else 0)"
    if "n < length spn" for n
    using that n1 n2 by (auto simp: nth_list_update)
  show ?case using IH step z by auto
qed

lemma count_snd_zip:
  "length xs = length ys \<Longrightarrow>
     length (filter (\<lambda>z. P (snd z)) (zip xs ys)) = length (filter P ys)"
proof (induction xs ys rule: list_induct2)
  case Nil
  then show ?case by simp
next
  case (Cons x xs y ys)
  then show ?case by simp
qed

lemma count_either_end:
  "\<forall>b \<in> set bs. fst b \<noteq> snd b \<Longrightarrow>
     length (filter (\<lambda>b. fst b = n) bs) + length (filter (\<lambda>b. snd b = n) bs)
       = length (filter (\<lambda>b. fst b = n \<or> snd b = n) bs)"
  by (induction bs) auto

lemma map_result_nth:
  "map_result f xs = Inr ys \<Longrightarrow> n < length xs \<Longrightarrow> f (xs ! n) = Inr (ys ! n)"
proof (induction xs arbitrary: ys n)
  case Nil
  then show ?case by simp
next
  case (Cons x xs)
  then show ?case by (cases n) (auto split: sum.splits)
qed

text \<open>Whatever the type of the array, the counts add up to the length of the list.\<close>

lemma get_occurrences_total:
  "get_occurrences xs = Inr r \<Longrightarrow> sum_list (map snd r) = length xs"
  by (auto simp: get_occurrences_def np_unique_counts_def count_runs_total split: dtype.splits)

lemma get_occurrences_Nil: "get_occurrences [] = Inr []"
  by (simp add: get_occurrences_def components_def array_dtype_def np_unique_counts_def)

text \<open>
  C10. For every Graph built from a square, symmetric matrix with a zero diagonal on which
  \<open>get_CNAPs\<close> returns a result, the result has one CNAP per node, and for every node \<open>n\<close>
  the counts in its CNAP add up to the number of unique bonds that touch \<open>n\<close>; a node
  that no bond touches has the empty CNAP.
\<close>

theorem get_CNAPs_degree:
  assumes "square m" and "symmetric m" and "zero_diagonal m"
    and "Graph_init m pos fd root = Inr g"
    and "get_CNAPs g = Inr cnaps"
    and "n < number_of_nodes g"
  shows "length cnaps = number_of_nodes g
    \<and> sum_list (map snd (cnaps ! n)) = length (incident_bonds g n)
    \<and> (incident_bonds g n = [] \<longrightarrow> cnaps ! n = [])"
proof -
  have m: "adj_mat g = m" using assms(3,4) by (rule Graph_init_adj_mat)
  obtain sigs spn where sigs: "compute_signatures g = Inr sigs"
    and spn: "append_sigs (zip sigs (unique_bonds g)) (replicate (number_of_nodes g) []) = Inr spn"
    and cnaps: "map_result get_occurrences spn = Inr cnaps"
    using assms(5) by (auto simp: get_CNAPs_def split: sum.splits)
  have len: "length sigs = length (unique_bonds g)"
    using sigs by (rule compute_signatures_length)
  note app = append_sigs_lengths [OF spn]
  have lspn: "length spn = number_of_nodes g" using app by simp
  have ends: "\<forall>b \<in> set (unique_bonds g). fst b \<noteq> snd b"
  proof
    fix b assume "b \<in> set (unique_bonds g)"
    then have "(fst b, snd b) \<in> set (unique_bonds g)" by simp
    then have "fst b < snd b"
      using in_unique_bonds [of g "fst b" "snd b"] assms(1-3) m by simp
    then show "fst b \<noteq> snd b" by simp
  qed
  have "length (spn ! n)
          = length (filter (\<lambda>z. fst (snd z) = n) (zip sigs (unique_bonds g)))
            + length (filter (\<lambda>z. snd (snd z) = n) (zip sigs (unique_bonds g)))"
    using app assms(6) by simp
  also have "\<dots> = length (filter (\<lambda>b. fst b = n) (unique_bonds g))
                     + length (filter (\<lambda>b. snd b = n) (unique_bonds g))"
    using count_snd_zip [OF len, of "\<lambda>b. fst b = n"] count_snd_zip [OF len, of "\<lambda>b. snd b = n"]
    by simp
  also have "\<dots> = length (incident_bonds g n)"
    using count_either_end [OF ends] by (simp add: incident_bonds_def)
  finally have deg: "length (spn ! n) = length (incident_bonds g n)" .
  have nth: "get_occurrences (spn ! n) = Inr (cnaps ! n)"
    using map_result_nth [OF cnaps] lspn assms(6) by simp
  have "sum_list (map snd (cnaps ! n)) = length (incident_bonds g n)"
    using get_occurrences_total [OF nth] deg by simp
  moreover have "cnaps ! n = []" if "incident_bonds g n = []"
    using that deg nth by (simp add: get_occurrences_Nil)
  moreover have "length cnaps = number_of_nodes g"
    using map_result_length [OF cnaps] lspn by simp
  ultimately show ?thesis by simp
qed

text \<open>
  The theorem at \<open>K4\<close> with positions and node 0: three bonds touch it, and its CNAP
  counts the signature \<open>(2, 1, 1)\<close> three times.
\<close>

theorem get_CNAPs_degree_witness:
  "get_CNAPs \<lparr>adj_mat = K4, adj_list = [[1, 2, 3], [0, 2, 3], [0, 1, 3], [0, 1, 2]],
              positions = K4_positions, root_node = None\<rparr>
     = Inr [[((2, 1, 1), 3)], [((2, 1, 1), 3)], [((2, 1, 1), 3)], [((2, 1, 1), 3)]]
   \<and> incident_bonds \<lparr>adj_mat = K4, adj_list = [[1, 2, 3], [0, 2, 3], [0, 1, 3], [0, 1, 2]],
              positions = K4_positions, root_node = None\<rparr> 0 = [(0, 1), (0, 2), (0, 3)]
   \<and> sum_list (map snd ([[((2, 1, 1), 3)], [((2, 1, 1), 3)], [((2, 1, 1), 3)], [((2, 1, 1), 3 :: nat)] :: (signature \<times> nat) list] ! 0))
       = length (incident_bonds \<lparr>adj_mat = K4, adj_list = [[1, 2, 3], [0, 2, 3], [0, 1, 3], [0, 1, 2]],
              positions = K4_positions, root_node = None\<rparr> 0)"
proof -
  let ?g = "\<lparr>adj_mat = K4, adj_list = [[1, 2, 3], [0, 2, 3], [0, 1, 3], [0, 1, 2]],
              positions = K4_positions, root_node = None\<rparr>"
  let ?c = "[[((2, 1, 1), 3)], [((2, 1, 1), 3)], [((2, 1, 1), 3)], [((2, 1, 1), 3 :: nat)]] :: (signature \<times> nat) list list"
  have sq: "square K4" by code_simp
  have sy: "symmetric K4" by code_simp
  have zd: "zero_diagonal K4" by code_simp
  have gi: "Graph_init K4 K4_positions True None = Inr ?g" by code_simp
  have gc: "get_CNAPs ?g = Inr ?c" by code_simp
  have n: "0 < number_of_nodes ?g" by code_simp
  have ib: "incident_bonds ?g 0 = [(0, 1), (0, 2), (0, 3)]" by code_simp
  have "sum_list (map snd (?c ! 0)) = length (incident_bonds ?g 0)"
    using get_CNAPs_degree [OF sq sy zd gi gc n] by blast
  then show ?thesis using gc ib by blast
qed

section \<open>Who shares the adjacency matrix\<close>

lemma fold_update_length: "length (fold (\<lambda>c b. b[c := v]) cs b) = length b"
  by (induction cs arbitrary: b) simp_all

lemma fold_update_nth:
  "k < length b \<Longrightarrow> fold (\<lambda>c b. b[c := v]) cs b ! k = (if k \<in> set cs then v else b ! k)"
  by (induction cs arbitrary: b) (auto simp: nth_list_update)

lemma fold_update_same:
  "\<forall>c \<in> set cs. c < length b \<longrightarrow> b ! c = v \<Longrightarrow> fold (\<lambda>c b. b[c := v]) cs b = b"
proof (induction cs arbitrary: b)
  case Nil
  then show ?case by simp
next
  case (Cons c cs)
  have "b[c := v] = b"
  proof (cases "c < length b")
    case True
    then show ?thesis using Cons.prems by (simp add: list_update_same_conv)
  next
    case False
    then show ?thesis by (intro list_update_beyond) simp
  qed
  then show ?case using Cons by simp
qed

lemma fill_diagonal_st_length: "length (fill_diagonal_st s a v) = length s"
  by (simp add: fill_diagonal_st_def)

lemma fill_diagonal_st_other:
  "b \<noteq> arr_base a \<Longrightarrow> fill_diagonal_st s a v ! b = s ! b"
  by (simp add: fill_diagonal_st_def)

lemma fill_diagonal_st_buffer_length:
  "b < length s \<Longrightarrow> length (fill_diagonal_st s a v ! b) = length (s ! b)"
  by (cases "b = arr_base a") (simp_all add: fill_diagonal_st_def fold_update_length)

lemma fill_diagonal_st_cell:
  assumes "arr_base a < length s" and "k < length (s ! arr_base a)"
  shows "fill_diagonal_st s a v ! arr_base a ! k
    = (if k \<in> set (diagonal_cells a) then v else s ! arr_base a ! k)"
  using assms by (simp add: fill_diagonal_st_def fold_update_nth)

lemma valid_array_base: "valid_array s a \<Longrightarrow> arr_base a < length s"
  unfolding valid_array_def by (elim conjE)

lemma valid_array_bound:
  assumes "valid_array s a" and "i < arr_rows a" and "j < arr_cols a"
  shows "cell a i j < length (s ! arr_base a)"
proof -
  have "\<forall>i \<in> {0..<arr_rows a}. \<forall>j \<in> {0..<arr_cols a}.
            0 \<le> arr_offset a + int i * arr_stride0 a + int j * arr_stride1 a
            \<and> cell a i j < length (s ! arr_base a)"
    using assms(1) unfolding valid_array_def by (elim conjE)
  moreover have "i \<in> {0..<arr_rows a}" "j \<in> {0..<arr_cols a}"
    using assms(2,3) by simp_all
  ultimately show ?thesis by blast
qed

lemma valid_array_inj:
  assumes "valid_array s a" and "i < arr_rows a" and "j < arr_cols a"
    and "i' < arr_rows a" and "j' < arr_cols a" and "cell a i j = cell a i' j'"
  shows "i = i' \<and> j = j'"
proof -
  have "\<forall>i \<in> {0..<arr_rows a}. \<forall>j \<in> {0..<arr_cols a}.
          \<forall>i' \<in> {0..<arr_rows a}. \<forall>j' \<in> {0..<arr_cols a}.
            cell a i j = cell a i' j' \<longrightarrow> i = i' \<and> j = j'"
    using assms(1) unfolding valid_array_def by (elim conjE)
  moreover have "i \<in> {0..<arr_rows a}" "j \<in> {0..<arr_cols a}"
    "i' \<in> {0..<arr_rows a}" "j' \<in> {0..<arr_cols a}"
    using assms(2-5) by simp_all
  ultimately show ?thesis using assms(6) by blast
qed

lemma diagonal_cell_iff:
  assumes "valid_array s a" and "i < arr_rows a" and "j < arr_cols a"
  shows "cell a i j \<in> set (diagonal_cells a) \<longleftrightarrow> i = j"
proof
  assume "cell a i j \<in> set (diagonal_cells a)"
  then obtain k where k: "k < arr_rows a" "k < arr_cols a" "cell a i j = cell a k k"
    by (auto simp: diagonal_cells_def)
  then have "i = k \<and> j = k"
    using valid_array_inj [OF assms(1) assms(2) assms(3), of k k] by simp
  then show "i = j" by simp
next
  assume "i = j"
  then show "cell a i j \<in> set (diagonal_cells a)"
    using assms(2,3) by (auto simp: diagonal_cells_def)
qed

text \<open>Through the array that was filled, the store reads as the matrix with its diagonal filled.\<close>

lemma read_array_fill_diagonal_st:
  assumes "valid_array s a"
  shows "read_array (fill_diagonal_st s a v) a = fill_diagonal (read_array s a) v"
proof (rule nth_equalityI)
  show "length (read_array (fill_diagonal_st s a v) a) = length (fill_diagonal (read_array s a) v)"
    by (simp add: read_array_def fill_diagonal_def)
next
  fix i assume "i < length (read_array (fill_diagonal_st s a v) a)"
  then have i: "i < arr_rows a" by (simp add: read_array_def)
  have base: "arr_base a < length s" using assms by (rule valid_array_base)
  let ?old = "map (\<lambda>j. s ! arr_base a ! cell a i j) [0..<arr_cols a]"
  have "map (\<lambda>j. fill_diagonal_st s a v ! arr_base a ! cell a i j) [0..<arr_cols a] = ?old[i := v]"
  proof (rule nth_equalityI)
    show "length (map (\<lambda>j. fill_diagonal_st s a v ! arr_base a ! cell a i j) [0..<arr_cols a])
        = length (?old[i := v])" by simp
  next
    fix j assume "j < length (map (\<lambda>j. fill_diagonal_st s a v ! arr_base a ! cell a i j) [0..<arr_cols a])"
    then have j: "j < arr_cols a" by simp
    have "cell a i j < length (s ! arr_base a)"
      using assms i j by (rule valid_array_bound)
    then have "fill_diagonal_st s a v ! arr_base a ! cell a i j
        = (if i = j then v else s ! arr_base a ! cell a i j)"
      using fill_diagonal_st_cell [OF base] diagonal_cell_iff [OF assms i j] by simp
    then show "map (\<lambda>j. fill_diagonal_st s a v ! arr_base a ! cell a i j) [0..<arr_cols a] ! j
        = ?old[i := v] ! j"
      using j by (auto simp: nth_list_update)
  qed
  then show "read_array (fill_diagonal_st s a v) a ! i = fill_diagonal (read_array s a) v ! i"
    using i by (simp add: read_array_def fill_diagonal_def nth_enumerate_eq)
qed

lemma valid_array_fill_diagonal_st:
  assumes "valid_array s a"
  shows "valid_array (fill_diagonal_st s a' v) a"
proof -
  have base: "arr_base a < length s" using assms by (rule valid_array_base)
  then have len: "length (fill_diagonal_st s a' v ! arr_base a) = length (s ! arr_base a)"
    by (rule fill_diagonal_st_buffer_length)
  show ?thesis
    using assms base unfolding valid_array_def len fill_diagonal_st_length by (elim conjE) (intro conjI)
qed

text \<open>
  The functions over the store compute the Graph values of the functions above: reading
  the matrix of the resulting object from the resulting store gives their result.
\<close>

lemma Graph_init_st_graph_of:
  assumes "valid_array s a" and "Graph_init_st s a pos fd root = (s', r)"
  shows "Graph_init (read_array s a) pos fd root = map_sum id (graph_of s') r"
  using assms
  by (auto simp: Graph_init_st_def Graph_init_def graph_of_def Let_def
        read_array_fill_diagonal_st split: if_splits)

lemma sum_list_lengths: "\<forall>r \<in> set m. length r = k \<Longrightarrow> sum_list (map length m) = length m * k"
  by (induction m) simp_all

lemma nth_concat_rows:
  "\<forall>r \<in> set m. length r = k \<Longrightarrow> i < length m \<Longrightarrow> j < k \<Longrightarrow> concat m ! (i * k + j) = m ! i ! j"
proof (induction m arbitrary: i)
  case Nil
  then show ?case by simp
next
  case (Cons r m)
  show ?case
  proof (cases i)
    case 0
    then show ?thesis using Cons.prems by (simp add: nth_append)
  next
    case (Suc i')
    then have "concat m ! (i' * k + j) = m ! i' ! j"
      using Cons.IH [of i'] Cons.prems by simp
    then show ?thesis using Suc Cons.prems by (simp add: nth_append)
  qed
qed

lemma new_array_fields:
  "arr_base (new_array b k) = b" "arr_rows (new_array b k) = k" "arr_cols (new_array b k) = k"
  "arr_offset (new_array b k) = 0" "arr_stride0 (new_array b k) = int k" "arr_stride1 (new_array b k) = 1"
  by (simp_all add: new_array_def)

lemma cell_new_array: "cell (new_array b k) i j = i * k + j"
proof -
  have "int i * int k + int j = int (i * k + j)" by simp
  then show ?thesis by (simp only: cell_def new_array_fields nat_int add_0 mult_1_right)
qed

lemma row_major_bound:
  assumes "i < k" and "j < k"
  shows "i * k + j < k * (k::nat)"
proof -
  have "i * k + j < i * k + k" using assms(2) by simp
  also have "\<dots> = Suc i * k" by simp
  also have "\<dots> \<le> k * k" using assms(1) by (metis Suc_leI mult.commute mult_le_mono1)
  finally show ?thesis .
qed

lemma row_major_inj:
  assumes "i * k + j = i' * k + j'" and "j < k" and "j' < (k::nat)"
  shows "i = i' \<and> j = j'"
proof -
  have "(i * k + j) div k = i" "(i * k + j) mod k = j" using assms(2) by simp_all
  moreover have "(i' * k + j') div k = i'" "(i' * k + j') mod k = j'" using assms(3) by simp_all
  ultimately show ?thesis using assms(1) by simp
qed

lemma valid_new_array:
  assumes "length m = k" and "\<forall>r \<in> set m. length r = k"
  shows "valid_array (s @ [concat m]) (new_array (length s) k)"
  unfolding valid_array_def new_array_fields cell_new_array
proof (intro conjI ballI impI)
  show "length s < length (s @ [concat m])" by simp
next
  fix i j
  show "0 \<le> 0 + int i * int k + int j * 1" by simp
next
  fix i j assume "i \<in> {0..<k}" "j \<in> {0..<k}"
  then have "i * k + j < k * k" by (simp add: row_major_bound)
  moreover have "length (concat m) = k * k"
    using assms sum_list_lengths [of m k] by (simp add: length_concat)
  ultimately show "i * k + j < length ((s @ [concat m]) ! length s)" by simp
next
  fix i j i' j'
  assume "j \<in> {0..<k}" "j' \<in> {0..<k}" "i * k + j = i' * k + j'"
  then show "i = i'" using row_major_inj [of i k j i' j'] by simp
next
  fix i j i' j'
  assume "j \<in> {0..<k}" "j' \<in> {0..<k}" "i * k + j = i' * k + j'"
  then show "j = j'" using row_major_inj [of i k j i' j'] by simp
qed

lemma read_new_array:
  assumes "length m = k" and "\<forall>r \<in> set m. length r = k"
  shows "read_array (s @ [concat m]) (new_array (length s) k) = m"
proof (rule nth_equalityI)
  show "length (read_array (s @ [concat m]) (new_array (length s) k)) = length m"
    using assms(1) by (simp add: read_array_def new_array_fields)
next
  fix i assume "i < length (read_array (s @ [concat m]) (new_array (length s) k))"
  then have i: "i < k" by (simp add: read_array_def new_array_fields)
  then have row: "length (m ! i) = k" using assms by simp
  have "map (\<lambda>j. concat m ! (i * k + j)) [0..<k] = m ! i"
  proof (rule nth_equalityI)
    show "length (map (\<lambda>j. concat m ! (i * k + j)) [0..<k]) = length (m ! i)"
      using row by simp
  next
    fix j assume "j < length (map (\<lambda>j. concat m ! (i * k + j)) [0..<k])"
    then have "j < k" by simp
    then show "map (\<lambda>j. concat m ! (i * k + j)) [0..<k] ! j = m ! i ! j"
      using nth_concat_rows [OF assms(2), of i j] i assms(1) by simp
  qed
  then show "read_array (s @ [concat m]) (new_array (length s) k) ! i = m ! i"
    using i by (simp add: read_array_def cell_new_array new_array_fields)
qed

lemma ix_select_shape:
  assumes "ix_select a idx = Inr sub"
  shows "length sub = length idx \<and> (\<forall>r \<in> set sub. length r = length idx)"
proof (cases "take_indices a idx")
  case (Inl e)
  then have "ix_select a idx = Inl e" by (simp add: ix_select_def)
  then show ?thesis using assms by simp
next
  case (Inr rows)
  then have sub: "map_result (\<lambda>row. take_indices row idx) rows = Inr sub"
    using assms by (simp add: ix_select_def)
  have l1: "length rows = length idx"
    using Inr unfolding take_indices_def by (rule map_result_length)
  have l2: "length sub = length rows"
    using sub by (rule map_result_length)
  have "length r = length idx" if "r \<in> set sub" for r
  proof -
    from that obtain n where n: "n < length sub" "sub ! n = r"
      unfolding in_set_conv_nth by blast
    have "n < length rows" using n(1) l2 by simp
    then have "take_indices (rows ! n) idx = Inr (sub ! n)"
      using sub by (rule map_result_nth [rotated])
    then have "length (sub ! n) = length idx"
      unfolding take_indices_def by (rule map_result_length)
    then show ?thesis using n(2) by simp
  qed
  then show ?thesis using l1 l2 by simp
qed

lemma make_subgraph_st_graph_of:
  assumes "make_subgraph_st s self nodes = (s', r)"
  shows "make_subgraph (graph_of s self) nodes = map_sum id (graph_of s') r"
proof (cases "np_array nodes")
  case FloatIndex
  then have "make_subgraph_st s self nodes = (s, Inl IndexError)"
    by (simp add: make_subgraph_st_def)
  then have "r = Inl IndexError" using assms by simp
  then show ?thesis using FloatIndex by (simp add: make_subgraph_def)
next
  case (IntIndex idx)
  have mat: "adj_mat (graph_of s self) = read_array s (adj_mat_ref self)"
    and pos: "positions (graph_of s self) = obj_positions self"
    by (simp_all add: graph_of_def)
  show ?thesis
  proof (cases "ix_select (read_array s (adj_mat_ref self)) idx")
    case (Inl e)
    then have "make_subgraph_st s self nodes = (s, Inl e)"
      using IntIndex by (simp add: make_subgraph_st_def)
    then have "r = Inl e" using assms by simp
    then show ?thesis using IntIndex Inl mat by (simp add: make_subgraph_def)
  next
    case (Inr sub)
    let ?a = "new_array (length s) (length idx)"
    let ?s1 = "s @ [concat sub]"
    let ?s2 = "fill_diagonal_st ?s1 ?a 0"
    note shape = ix_select_shape [OF Inr]
    have v1: "valid_array ?s1 ?a" using shape by (simp add: valid_new_array)
    have r1: "read_array ?s1 ?a = sub" using shape by (simp add: read_new_array)
    have v2: "valid_array ?s2 ?a" using v1 by (rule valid_array_fill_diagonal_st)
    have r2: "read_array ?s2 ?a = fill_diagonal sub 0"
      using read_array_fill_diagonal_st [OF v1] r1 by simp
    show ?thesis
    proof (cases "index_positions (obj_positions self) idx")
      case (Inl e)
      then have "make_subgraph_st s self nodes = (?s2, Inl e)"
        using IntIndex Inr by (simp add: make_subgraph_st_def Let_def is_not_new_list_def)
      then have "r = Inl e" using assms by simp
      then show ?thesis
        using IntIndex Inr Inl mat pos
        by (simp add: make_subgraph_def Let_def is_not_new_list_def)
    next
      case ps: (Inr ps)
      have "make_subgraph_st s self nodes = Graph_init_st ?s2 ?a ps True None"
        using IntIndex Inr ps by (simp add: make_subgraph_st_def Let_def is_not_new_list_def)
      then have st: "Graph_init_st ?s2 ?a ps True None = (s', r)"
        using assms by simp
      have "make_subgraph (graph_of s self) nodes = Graph_init (fill_diagonal sub 0) ps True None"
        using IntIndex Inr ps mat pos
        by (simp add: make_subgraph_def Let_def is_not_new_list_def)
      then show ?thesis
        using Graph_init_st_graph_of [OF v2 st] r2 by simp
    qed
  qed
qed

lemma Graph_init_st_store:
  assumes "Graph_init_st s a pos fd root = (s', r)"
  shows "length s' = length s \<and> (\<forall>b. b \<noteq> arr_base a \<longrightarrow> s' ! b = s ! b)"
  using assms
  by (cases fd) (auto simp: Graph_init_st_def Let_def fill_diagonal_st_length fill_diagonal_st_other)

text \<open>Whether it returns or raises, \<open>make_subgraph\<close> only adds a buffer to the store.\<close>

lemma make_subgraph_st_frame:
  assumes "make_subgraph_st t self nodes = (t1, r)"
  shows "length t \<le> length t1 \<and> (\<forall>b < length t. t1 ! b = t ! b)"
proof (cases "np_array nodes")
  case FloatIndex
  then have "make_subgraph_st t self nodes = (t, Inl IndexError)"
    by (simp add: make_subgraph_st_def)
  then show ?thesis using assms by simp
next
  case (IntIndex idx)
  show ?thesis
  proof (cases "ix_select (read_array t (adj_mat_ref self)) idx")
    case (Inl e)
    then have "make_subgraph_st t self nodes = (t, Inl e)"
      using IntIndex by (simp add: make_subgraph_st_def)
    then show ?thesis using assms by simp
  next
    case (Inr sub)
    let ?a = "new_array (length t) (length idx)"
    let ?s2 = "fill_diagonal_st (t @ [concat sub]) ?a 0"
    have len2: "length ?s2 = Suc (length t)"
      by (simp add: fill_diagonal_st_length)
    have old2: "?s2 ! b = t ! b" if "b < length t" for b
      using that by (simp add: fill_diagonal_st_other new_array_fields nth_append)
    show ?thesis
    proof (cases "index_positions (obj_positions self) idx")
      case (Inl e)
      then have "make_subgraph_st t self nodes = (?s2, Inl e)"
        using IntIndex Inr by (simp add: make_subgraph_st_def Let_def is_not_new_list_def)
      then have "t1 = ?s2" using assms by simp
      then show ?thesis using len2 old2 by simp
    next
      case ps: (Inr ps)
      have "make_subgraph_st t self nodes = Graph_init_st ?s2 ?a ps True None"
        using IntIndex Inr ps by (simp add: make_subgraph_st_def Let_def is_not_new_list_def)
      then have "Graph_init_st ?s2 ?a ps True None = (t1, r)" using assms by simp
      then have "length t1 = length ?s2" and "\<forall>b. b \<noteq> arr_base ?a \<longrightarrow> t1 ! b = ?s2 ! b"
        using Graph_init_st_store by blast+
      then show ?thesis using len2 old2 by (simp add: new_array_fields)
    qed
  qed
qed

text \<open>
  Against C9 as stated (the constructor leaves the caller's matrix unchanged): the caller's
  array shows \<open>[[1, 0], [0, 1]]\<close>; after \<open>Graph(matrix)\<close> its buffer holds zeros only, and
  the array shows \<open>[[0, 0], [0, 0]]\<close>.
\<close>

theorem Graph_init_st_mutates:
  "read_array [[1, 0, 0, 1]] (new_array 0 2) = [[1, 0], [0, 1]]
   \<and> Graph_init_st [[1, 0, 0, 1]] (new_array 0 2) no_positions True None
       = ([[0, 0, 0, 0]],
          Inr \<lparr>adj_mat_ref = new_array 0 2, obj_adj_list = [[], []],
               obj_positions = PyList [], obj_root_node = None\<rparr>)
   \<and> read_array [[0, 0, 0, 0]] (new_array 0 2) = [[0, 0], [0, 0]]"
  by code_simp

text \<open>
  The write goes through a view: a Graph built on the upper left two by two corner of a
  three by three array of ones clears two entries of that array.
\<close>

lemma Graph_init_st_view:
  "read_array [[1, 1, 1, 1, 1, 1, 1, 1, 1]] (new_array 0 3) = [[1, 1, 1], [1, 1, 1], [1, 1, 1]]
   \<and> read_array (fst (Graph_init_st [[1, 1, 1, 1, 1, 1, 1, 1, 1]] (corner_view 0) no_positions True None))
        (new_array 0 3) = [[0, 1, 1], [1, 0, 1], [1, 1, 1]]"
  by code_simp

text \<open>
  C9, amended. \<open>Graph(matrix)\<close> with the default \<open>fill_diag\<close> keeps the caller's array and
  clears its diagonal in place, in the buffer the array views. For an array whose
  elements lie in distinct cells of its buffer, the caller's matrix reads afterwards as
  \<open>fill_diagonal\<close> of its old value, so it is unchanged only if its diagonal was zero
  already (and then the whole store is unchanged). No other buffer
  changes, and in the array's buffer only the cells of its diagonal entries change, so
  another array changes only where it shares those cells. \<open>make_subgraph\<close>, whether it
  returns a Graph or raises, puts its matrix in a new buffer and leaves every buffer that
  existed unchanged, and with them the parent's adjacency matrix.
\<close>

theorem store_effects:
  assumes "valid_array s a"
    and "Graph_init_st s a pos True root = (s1, r1)"
    and "make_subgraph_st t self nodes = (t1, r2)"
  shows "(\<exists>obj. r1 = Inr obj \<and> adj_mat_ref obj = a)
    \<and> length s1 = length s
    \<and> read_array s1 a = fill_diagonal (read_array s a) 0
    \<and> (\<forall>b < length s. b \<noteq> arr_base a \<longrightarrow> s1 ! b = s ! b)
    \<and> length (s1 ! arr_base a) = length (s ! arr_base a)
    \<and> (\<forall>k < length (s ! arr_base a). k \<notin> set (diagonal_cells a)
          \<longrightarrow> s1 ! arr_base a ! k = s ! arr_base a ! k)
    \<and> ((\<forall>i < min (arr_rows a) (arr_cols a). read_array s a ! i ! i = 0) \<longrightarrow> s1 = s)
    \<and> length t \<le> length t1
    \<and> (\<forall>b < length t. t1 ! b = t ! b)
    \<and> (arr_base (adj_mat_ref self) < length t
          \<longrightarrow> read_array t1 (adj_mat_ref self) = read_array t (adj_mat_ref self))"
proof -
  have s1: "s1 = fill_diagonal_st s a 0" and r1: "r1 = Inr \<lparr>adj_mat_ref = a,
      obj_adj_list = make_adj_list (read_array s1 a), obj_positions = pos, obj_root_node = root\<rparr>"
    using assms(2) by (auto simp: Graph_init_st_def Let_def)
  have base: "arr_base a < length s" using assms(1) by (rule valid_array_base)
  have c1: "\<exists>obj. r1 = Inr obj \<and> adj_mat_ref obj = a" using r1 by simp
  have c2: "length s1 = length s" using s1 by (simp add: fill_diagonal_st_length)
  have c3: "read_array s1 a = fill_diagonal (read_array s a) 0"
    using s1 read_array_fill_diagonal_st [OF assms(1)] by simp
  have c4: "\<forall>b < length s. b \<noteq> arr_base a \<longrightarrow> s1 ! b = s ! b"
    using s1 by (simp add: fill_diagonal_st_other)
  have c5: "length (s1 ! arr_base a) = length (s ! arr_base a)"
    using s1 base by (simp add: fill_diagonal_st_buffer_length)
  have c6: "\<forall>k < length (s ! arr_base a). k \<notin> set (diagonal_cells a)
          \<longrightarrow> s1 ! arr_base a ! k = s ! arr_base a ! k"
    using s1 fill_diagonal_st_cell [OF base] by simp
  have c7: "(\<forall>i < min (arr_rows a) (arr_cols a). read_array s a ! i ! i = 0) \<longrightarrow> s1 = s"
  proof
    assume z: "\<forall>i < min (arr_rows a) (arr_cols a). read_array s a ! i ! i = 0"
    have "s ! arr_base a ! c = 0" if "c \<in> set (diagonal_cells a)" for c
    proof -
      have "\<exists>i < min (arr_rows a) (arr_cols a). c = cell a i i"
        using that by (auto simp: diagonal_cells_def)
      then obtain i where "i < min (arr_rows a) (arr_cols a)" and c: "c = cell a i i"
        by blast
      then have i: "i < arr_rows a" "i < arr_cols a" "c = cell a i i"
        by simp_all
      then have "read_array s a ! i ! i = s ! arr_base a ! c"
        by (simp add: read_array_def)
      then show ?thesis using z i by simp
    qed
    then have "fold (\<lambda>c b. b[c := 0]) (diagonal_cells a) (s ! arr_base a) = s ! arr_base a"
      by (intro fold_update_same) simp
    then show "s1 = s" using s1 by (simp add: fill_diagonal_st_def)
  qed
  note frame = make_subgraph_st_frame [OF assms(3)]
  have c8: "length t \<le> length t1" and c9: "\<forall>b < length t. t1 ! b = t ! b"
    using frame by simp_all
  have c10: "arr_base (adj_mat_ref self) < length t
          \<longrightarrow> read_array t1 (adj_mat_ref self) = read_array t (adj_mat_ref self)"
    using c9 by (simp add: read_array_def)
  show ?thesis
    by (intro conjI) (rule c1 c2 c3 c4 c5 c6 c7 c8 c9 c10)+
qed

text \<open>
  The theorem at a three by three array of ones and the view of its upper left two by
  two corner: a Graph built on the view reads \<open>[[0, 1], [1, 0]]\<close> through it, and a
  \<open>make_subgraph\<close> that raises (the Graph has no positions) leaves the old buffer as it
  was.
\<close>

theorem store_effects_witness:
  "valid_array [[1, 1, 1, 1, 1, 1, 1, 1, 1]] (corner_view 0)
   \<and> read_array [[1, 1, 1, 1, 1, 1, 1, 1, 1]] (corner_view 0) = [[1, 1], [1, 1]]
   \<and> Graph_init_st [[1, 1, 1, 1, 1, 1, 1, 1, 1]] (corner_view 0) no_positions True None
       = ([[0, 1, 1, 1, 0, 1, 1, 1, 1]],
          Inr \<lparr>adj_mat_ref = corner_view 0, obj_adj_list = [[1], [0]],
               obj_positions = no_positions, obj_root_node = None\<rparr>)
   \<and> read_array [[0, 1, 1, 1, 0, 1, 1, 1, 1]] (corner_view 0) = [[0, 1], [1, 0]]
   \<and> make_subgraph_st [[0, 1, 1, 1, 0, 1, 1, 1, 1]]
        \<lparr>adj_mat_ref = corner_view 0, obj_adj_list = [[1], [0]],
          obj_positions = no_positions, obj_root_node = None\<rparr> (ListArg [0, 1])
       = ([[0, 1, 1, 1, 0, 1, 1, 1, 1], [0, 1, 1, 0]], Inl TypeError)
   \<and> ([[0, 1, 1, 1, 0, 1, 1, 1, 1], [0, 1, 1, 0]] :: store) ! 0 = [0, 1, 1, 1, 0, 1, 1, 1, 1]"
proof -
  let ?s = "[[1, 1, 1, 1, 1, 1, 1, 1, 1]] :: store"
  let ?s1 = "[[0, 1, 1, 1, 0, 1, 1, 1, 1]] :: store"
  let ?t1 = "[[0, 1, 1, 1, 0, 1, 1, 1, 1], [0, 1, 1, 0]] :: store"
  let ?obj = "\<lparr>adj_mat_ref = corner_view 0, obj_adj_list = [[1], [0]],
      obj_positions = no_positions, obj_root_node = None\<rparr>"
  have v: "valid_array ?s (corner_view 0)"
    by (simp add: valid_array_def corner_view_def cell_def atLeast0_lessThan_Suc eval_nat_numeral)
  have r0: "read_array ?s (corner_view 0) = [[1, 1], [1, 1]]" by code_simp
  have i: "Graph_init_st ?s (corner_view 0) no_positions True None = (?s1, Inr ?obj)" by code_simp
  have m: "make_subgraph_st ?s1 ?obj (ListArg [0, 1]) = (?t1, Inl TypeError)" by code_simp
  have f: "fill_diagonal (read_array ?s (corner_view 0)) 0 = [[0, 1], [1, 0]]" by code_simp
  note th = store_effects [OF v i m]
  have "read_array ?s1 (corner_view 0) = fill_diagonal (read_array ?s (corner_view 0)) 0"
    using th by (elim conjE)
  then have r1: "read_array ?s1 (corner_view 0) = [[0, 1], [1, 0]]" using f by simp
  have "\<forall>b < length ?s1. ?t1 ! b = ?s1 ! b"
    using th by (elim conjE)
  then have "?t1 ! 0 = ?s1 ! 0" by simp
  then have k: "?t1 ! 0 = [0, 1, 1, 1, 0, 1, 1, 1, 1]" by simp
  show ?thesis
    by (intro conjI) (rule v r0 i r1 m k)+
qed

end
